theory Spec2Isabelle
  imports Complex_Main
begin

section \<open>Dense matrices and vectors\<close>

text \<open>
  The code works on Eigen's \<^verbatim>\<open>MatrixXd\<close> and \<^verbatim>\<open>VectorXd\<close> of doubles. A matrix is modelled
  as its number of rows together with the list of its columns (Eigen stores a matrix
  column by column), so a matrix with no rows and \<open>n\<close> columns differs from the matrix
  with no rows and no columns, as it does in Eigen. A vector is a list. Doubles are
  modelled as real numbers: rounding, overflow and NaN are outside this model, and so is
  underflow, except where the exponential is taken as a parameter.
\<close>

record MatrixXd =
  rows :: nat
  coldata :: "real list list"

definition cols :: "MatrixXd \<Rightarrow> nat" where
  "cols M = length (coldata M)"

definition col :: "MatrixXd \<Rightarrow> nat \<Rightarrow> real list" where
  "col M j = coldata M ! j"

definition coeff :: "MatrixXd \<Rightarrow> nat \<Rightarrow> nat \<Rightarrow> real" where
  "coeff M i j = coldata M ! j ! i"

definition row :: "MatrixXd \<Rightarrow> nat \<Rightarrow> real list" where
  "row M i = map (\<lambda>c. c ! i) (coldata M)"

definition wf_matrix :: "MatrixXd \<Rightarrow> bool" where
  "wf_matrix M = list_all (\<lambda>c. length c = rows M) (coldata M)"

definition empty_matrix :: MatrixXd where
  "empty_matrix = \<lparr>rows = 0, coldata = []\<rparr>"

definition of_vector :: "real list \<Rightarrow> MatrixXd" where
  "of_vector v = \<lparr>rows = length v, coldata = [v]\<rparr>"

definition set_col :: "MatrixXd \<Rightarrow> nat \<Rightarrow> real list \<Rightarrow> MatrixXd" where
  "set_col M j v = M\<lparr>coldata := (coldata M)[j := v]\<rparr>"

definition dot :: "real list \<Rightarrow> real list \<Rightarrow> real" where
  "dot xs ys = sum_list (map (\<lambda>(x, y). x * y) (zip xs ys))"

definition mat_add :: "MatrixXd \<Rightarrow> MatrixXd \<Rightarrow> MatrixXd" where
  "mat_add A B =
     \<lparr>rows = rows A,
      coldata = map (\<lambda>(a, b). map (\<lambda>(x, y). x + y) (zip a b)) (zip (coldata A) (coldata B))\<rparr>"

definition mat_sub :: "MatrixXd \<Rightarrow> MatrixXd \<Rightarrow> MatrixXd" where
  "mat_sub A B =
     \<lparr>rows = rows A,
      coldata = map (\<lambda>(a, b). map (\<lambda>(x, y). x - y) (zip a b)) (zip (coldata A) (coldata B))\<rparr>"

definition cwise_mul :: "MatrixXd \<Rightarrow> MatrixXd \<Rightarrow> MatrixXd" where
  "cwise_mul A B =
     \<lparr>rows = rows A,
      coldata = map (\<lambda>(a, b). map (\<lambda>(x, y). x * y) (zip a b)) (zip (coldata A) (coldata B))\<rparr>"

definition mul_transposed :: "MatrixXd \<Rightarrow> MatrixXd \<Rightarrow> MatrixXd" where
  \<comment> \<open>\<^verbatim>\<open>A * B.transpose()\<close>\<close>
  "mul_transposed A B =
     \<lparr>rows = rows A,
      coldata = map (\<lambda>b. map (\<lambda>s. dot (row A s) (row B b)) [0..<rows A]) [0..<rows B]\<rparr>"

definition transpose_replicate :: "MatrixXd \<Rightarrow> nat \<Rightarrow> MatrixXd" where
  \<comment> \<open>\<^verbatim>\<open>v.transpose().replicate(n,1)\<close> for a one-column matrix \<open>v\<close>\<close>
  "transpose_replicate v n =
     \<lparr>rows = n, coldata = map (\<lambda>b. replicate n (coeff v b 0)) [0..<rows v]\<rparr>"

definition rowwise_sum :: "MatrixXd \<Rightarrow> real list" where
  "rowwise_sum M = map (\<lambda>i. sum_list (row M i)) [0..<rows M]"

definition maxCoeff :: "real list \<Rightarrow> real" where
  "maxCoeff xs = fold max (tl xs) (hd xs)"

definition segment :: "real list \<Rightarrow> nat \<Rightarrow> nat \<Rightarrow> real list" where
  \<comment> \<open>\<^verbatim>\<open>values.segment(offset,n)\<close> read\<close>
  "segment v offset n = take n (drop offset v)"

definition segment_write :: "real list \<Rightarrow> nat \<Rightarrow> real list \<Rightarrow> real list" where
  \<comment> \<open>\<^verbatim>\<open>values.segment(offset,n) = seg\<close> with \<open>n = length seg\<close>\<close>
  "segment_write v offset seg = take offset v @ seg @ drop (offset + length seg) v"

section \<open>The model parameters\<close>

record ModelParametersLWR =
  centers :: MatrixXd
  widths :: MatrixXd
  slopes :: MatrixXd
  offsets :: MatrixXd
  asymmetric_kernels :: bool
  lines_pivot_at_max_activation :: bool
  slopes_as_angles :: bool
  all_values_vector_size :: nat
  caching :: bool
  inputs_cached :: MatrixXd
  normalized_kernel_activations_cached :: MatrixXd

text \<open>
  The constructor. Its assertions are the branch \<open>None\<close>. The two cache members are not
  in the initialiser list: they are default-constructed matrices, with no rows and no
  columns.
\<close>

definition new_ModelParametersLWR ::
  "MatrixXd \<Rightarrow> MatrixXd \<Rightarrow> MatrixXd \<Rightarrow> MatrixXd \<Rightarrow> bool \<Rightarrow> bool \<Rightarrow> ModelParametersLWR option" where
  "new_ModelParametersLWR c w s off asymmetric pivot =
     (let n_basis_functions = rows c; n_dims = cols c in
      if n_basis_functions = rows w \<and> n_dims = cols w \<and>
         n_basis_functions = rows s \<and> n_dims = cols s \<and>
         n_basis_functions = rows off \<and> 1 = cols off
      then Some \<lparr>centers = c, widths = w, slopes = s, offsets = off,
                 asymmetric_kernels = asymmetric,
                 lines_pivot_at_max_activation = pivot,
                 slopes_as_angles = False,
                 all_values_vector_size =
                   rows c * cols c + rows w * cols w + rows off * cols off + rows s * cols s,
                 caching = True,
                 inputs_cached = empty_matrix,
                 normalized_kernel_activations_cached = empty_matrix\<rparr>
      else None)"

definition clone :: "ModelParametersLWR \<Rightarrow> ModelParametersLWR option" where
  "clone m =
     new_ModelParametersLWR (centers m) (widths m) (slopes m) (offsets m)
       (asymmetric_kernels m) (lines_pivot_at_max_activation m)"

text \<open>
  Modelled from the spec: \<^verbatim>\<open>clearCache\<close> is defined in the class header, which is not among
  the sources. The spec says the cache is empty at construction and is cleared when it is
  invalidated, so clearing puts both cache members back to the matrix with no rows and no
  columns.
\<close>

definition clearCache :: "ModelParametersLWR \<Rightarrow> ModelParametersLWR" where
  "clearCache m =
     m\<lparr>inputs_cached := empty_matrix, normalized_kernel_activations_cached := empty_matrix\<rparr>"

text \<open>
  Modelled from the spec: \<^verbatim>\<open>getParameterVectorAllSize\<close> is defined in the class header, which
  is not among the sources. The spec says it returns the size derived at construction.
\<close>

definition getParameterVectorAllSize :: "ModelParametersLWR \<Rightarrow> nat" where
  "getParameterVectorAllSize m = all_values_vector_size m"

section \<open>Kernel activations\<close>

definition kernel_factor ::
  "MatrixXd \<Rightarrow> MatrixXd \<Rightarrow> MatrixXd \<Rightarrow> bool \<Rightarrow> nat \<Rightarrow> nat \<Rightarrow> nat \<Rightarrow> real" where
  \<comment> \<open>the factor the innermost loop body multiplies into \<^verbatim>\<open>kernel_activations(i_s,bb)\<close>\<close>
  "kernel_factor C W X asymmetric bb i_dim i_s =
     (let c = coeff C bb i_dim;
          x = coeff X i_s i_dim;
          w = coeff W bb i_dim;
          w = (if asymmetric \<and> x < c \<and> bb > 0 then coeff W (bb - 1) i_dim else w)
      in exp (- 0.5 * (x - c) ^ 2 / (w * w)))"

definition kernelActivations_static ::
  "MatrixXd \<Rightarrow> MatrixXd \<Rightarrow> MatrixXd \<Rightarrow> bool \<Rightarrow> MatrixXd option" where
  "kernelActivations_static C W X asymmetric =
     (let n_basis_functions = rows C; n_samples = rows X; n_dims = cols C in
      if \<not> (n_basis_functions = rows W \<and> n_dims = cols W) then None
      else if \<not> (n_samples = rows X \<and> n_dims = cols X) then None
      else Some \<lparr>rows = n_samples,
                 coldata =
                   map (\<lambda>bb.
                          fold (\<lambda>i_dim colv.
                                  fold (\<lambda>i_s colv.
                                          colv[i_s := colv ! i_s * kernel_factor C W X asymmetric bb i_dim i_s])
                                       [0..<n_samples] colv)
                               [0..<n_dims] (replicate n_samples 1))
                       [0..<n_basis_functions]\<rparr>)"

definition normalizedKernelActivations_static ::
  "MatrixXd \<Rightarrow> MatrixXd \<Rightarrow> MatrixXd \<Rightarrow> bool \<Rightarrow> MatrixXd option" where
  "normalizedKernelActivations_static C W X asymmetric =
     (let n_basis_functions = rows C; n_samples = rows X in
      if n_basis_functions = 1
      then Some \<lparr>rows = n_samples, coldata = replicate n_basis_functions (replicate n_samples 1)\<rparr>
      else
        (case kernelActivations_static C W X asymmetric of
           None \<Rightarrow> None
         | Some K \<Rightarrow>
             (let sum_kernel_activations = rowwise_sum K;
                  sum_kernel_activations =
                    (if list_ex (\<lambda>s. s = 0) sum_kernel_activations
                     then map (\<lambda>s. s + maxCoeff sum_kernel_activations / 100000)
                            sum_kernel_activations
                     else sum_kernel_activations)
              in Some \<lparr>rows = rows K,
                       coldata =
                         map (\<lambda>c. map (\<lambda>(a, s). a / s) (zip c sum_kernel_activations))
                           (coldata K)\<rparr>)))"

text \<open>
  The two static routines again, with the exponential as a parameter. On doubles the
  library's \<^verbatim>\<open>exp\<close> is not the real exponential: it rounds, and it returns 0 for an
  argument below about -745. With the real exponential these are the routines above.
\<close>

definition kernel_factor_with ::
  "(real \<Rightarrow> real) \<Rightarrow> MatrixXd \<Rightarrow> MatrixXd \<Rightarrow> MatrixXd \<Rightarrow> bool \<Rightarrow> nat \<Rightarrow> nat \<Rightarrow> nat \<Rightarrow> real" where
  "kernel_factor_with ex C W X asymmetric bb i_dim i_s =
     (let c = coeff C bb i_dim;
          x = coeff X i_s i_dim;
          w = coeff W bb i_dim;
          w = (if asymmetric \<and> x < c \<and> bb > 0 then coeff W (bb - 1) i_dim else w)
      in ex (- 0.5 * (x - c) ^ 2 / (w * w)))"

definition kernelActivations_with ::
  "(real \<Rightarrow> real) \<Rightarrow> MatrixXd \<Rightarrow> MatrixXd \<Rightarrow> MatrixXd \<Rightarrow> bool \<Rightarrow> MatrixXd option" where
  "kernelActivations_with ex C W X asymmetric =
     (let n_basis_functions = rows C; n_samples = rows X; n_dims = cols C in
      if \<not> (n_basis_functions = rows W \<and> n_dims = cols W) then None
      else if \<not> (n_samples = rows X \<and> n_dims = cols X) then None
      else Some \<lparr>rows = n_samples,
                 coldata =
                   map (\<lambda>bb.
                          fold (\<lambda>i_dim colv.
                                  fold (\<lambda>i_s colv.
                                          colv[i_s := colv ! i_s *
                                                      kernel_factor_with ex C W X asymmetric bb i_dim i_s])
                                       [0..<n_samples] colv)
                               [0..<n_dims] (replicate n_samples 1))
                       [0..<n_basis_functions]\<rparr>)"

definition normalizedKernelActivations_with ::
  "(real \<Rightarrow> real) \<Rightarrow> MatrixXd \<Rightarrow> MatrixXd \<Rightarrow> MatrixXd \<Rightarrow> bool \<Rightarrow> MatrixXd option" where
  "normalizedKernelActivations_with ex C W X asymmetric =
     (let n_basis_functions = rows C; n_samples = rows X in
      if n_basis_functions = 1
      then Some \<lparr>rows = n_samples, coldata = replicate n_basis_functions (replicate n_samples 1)\<rparr>
      else
        (case kernelActivations_with ex C W X asymmetric of
           None \<Rightarrow> None
         | Some K \<Rightarrow>
             (let sum_kernel_activations = rowwise_sum K;
                  sum_kernel_activations =
                    (if list_ex (\<lambda>s. s = 0) sum_kernel_activations
                     then map (\<lambda>s. s + maxCoeff sum_kernel_activations / 100000)
                            sum_kernel_activations
                     else sum_kernel_activations)
              in Some \<lparr>rows = rows K,
                       coldata =
                         map (\<lambda>c. map (\<lambda>(a, s). a / s) (zip c sum_kernel_activations))
                           (coldata K)\<rparr>)))"

text \<open>
  An exponential that underflows as the one on doubles does: 0 below -746, where the
  double result is 0 whatever the rounding, and the real exponential elsewhere.
\<close>

definition underflowing_exp :: "real \<Rightarrow> real" where
  "underflowing_exp x = (if x < - 746 then 0 else exp x)"

definition kernelActivations :: "ModelParametersLWR \<Rightarrow> MatrixXd \<Rightarrow> MatrixXd option" where
  "kernelActivations m X =
     kernelActivations_static (centers m) (widths m) X (asymmetric_kernels m)"

definition normalizedKernelActivations ::
  "ModelParametersLWR \<Rightarrow> MatrixXd \<Rightarrow> (MatrixXd \<times> ModelParametersLWR) option" where
  "normalizedKernelActivations m X =
     (if caching m \<and>
         rows X = rows (inputs_cached m) \<and> cols X = cols (inputs_cached m) \<and>
         coldata X = coldata (inputs_cached m)
      then Some (normalized_kernel_activations_cached m, m)
      else
        (case normalizedKernelActivations_static (centers m) (widths m) X (asymmetric_kernels m) of
           None \<Rightarrow> None
         | Some N \<Rightarrow>
             Some (N, if caching m
                      then m\<lparr>inputs_cached := X, normalized_kernel_activations_cached := N\<rparr>
                      else m)))"

section \<open>Lines\<close>

definition slopes_times_centers :: "ModelParametersLWR \<Rightarrow> real list" where
  \<comment> \<open>the vector \<^verbatim>\<open>ac\<close> both \<^verbatim>\<open>set_lines_pivot_at_max_activation\<close> and \<^verbatim>\<open>getLines\<close> compute\<close>
  "slopes_times_centers m =
     (let n_lines = rows (centers m) in
      map (\<lambda>i_line. dot (row (slopes m) i_line) (row (centers m) i_line)) [0..<n_lines])"

definition set_lines_pivot_at_max_activation ::
  "ModelParametersLWR \<Rightarrow> bool \<Rightarrow> ModelParametersLWR" where
  "set_lines_pivot_at_max_activation m new_value =
     (if lines_pivot_at_max_activation m = new_value then m
      else
        (let ac = slopes_times_centers m;
             m = (if new_value
                  then m\<lparr>offsets := mat_add (offsets m) (of_vector ac)\<rparr>
                  else m\<lparr>offsets := mat_sub (offsets m) (of_vector ac)\<rparr>)
         in m\<lparr>lines_pivot_at_max_activation := new_value\<rparr>))"

definition set_slopes_as_angles ::
  "ModelParametersLWR \<Rightarrow> bool \<Rightarrow> string list \<times> ModelParametersLWR" where
  "set_slopes_as_angles m new_value =
     (let m = m\<lparr>slopes_as_angles := new_value\<rparr>
      in ([''Not implemented yet!!!''], m\<lparr>slopes_as_angles := False\<rparr>))"

text \<open>
  \<^verbatim>\<open>getLines\<close>. The matrix product needs as many input columns as the slopes have; Eigen
  asserts it, which is the branch \<open>None\<close>.
\<close>

definition getLines :: "ModelParametersLWR \<Rightarrow> MatrixXd \<Rightarrow> MatrixXd option" where
  "getLines m X =
     (let n_time_steps = rows X in
      if cols X \<noteq> cols (slopes m) then None
      else
        (let lines = mat_add (mul_transposed X (slopes m))
                       (transpose_replicate (offsets m) n_time_steps)
         in if lines_pivot_at_max_activation m
            then Some (mat_sub lines
                         (transpose_replicate (of_vector (slopes_times_centers m)) n_time_steps))
            else Some lines))"

definition locallyWeightedLines ::
  "ModelParametersLWR \<Rightarrow> MatrixXd \<Rightarrow> (MatrixXd \<times> ModelParametersLWR) option" where
  "locallyWeightedLines m X =
     (case getLines m X of
        None \<Rightarrow> None
      | Some lines \<Rightarrow>
          (case normalizedKernelActivations m X of
             None \<Rightarrow> None
           | Some (activations, m') \<Rightarrow>
               Some (of_vector (rowwise_sum (cwise_mul lines activations)), m')))"

section \<open>The flat parameter vector\<close>

definition write_cols ::
  "(real list \<Rightarrow> real list) \<Rightarrow> MatrixXd \<Rightarrow> nat \<times> real list \<Rightarrow> nat \<times> real list" where
  \<comment> \<open>one loop of \<^verbatim>\<open>getParameterVectorAll\<close>: column \<open>i_dim\<close>, through \<open>f\<close>, written at \<open>offset\<close>\<close>
  "write_cols f M start =
     fold (\<lambda>i_dim (offset, values).
             (offset + rows M, segment_write values offset (f (col M i_dim))))
          [0..<cols M] start"

definition getParameterVectorAll :: "ModelParametersLWR \<Rightarrow> real list option" where
  "getParameterVectorAll m =
     (let values = replicate (getParameterVectorAllSize m) 0;
          (offset, values) = write_cols (\<lambda>c. c) (centers m) (0, values);
          (offset, values) = write_cols (\<lambda>c. c) (widths m) (offset, values);
          values = segment_write values offset (concat (coldata (offsets m)));
          offset = offset + rows (offsets m);
          (offset, values) =
            write_cols (\<lambda>cur_slopes.
                          if slopes_as_angles m then map (\<lambda>s. arctan s) cur_slopes
                          else cur_slopes)
                       (slopes m) (offset, values)
      in if offset = getParameterVectorAllSize m then Some values else None)"

definition set_centers_loop ::
  "real list \<Rightarrow> nat \<Rightarrow> nat \<Rightarrow> nat \<times> ModelParametersLWR \<Rightarrow> nat \<times> ModelParametersLWR" where
  "set_centers_loop values seg_size n_dims start =
     fold (\<lambda>i_dim (offset, m).
             (let seg = segment values offset seg_size;
                  m = (if col (centers m) i_dim \<noteq> seg then clearCache m else m);
                  m = m\<lparr>centers := set_col (centers m) i_dim seg\<rparr>
              in (offset + seg_size, m)))
          [0..<n_dims] start"

definition set_widths_loop ::
  "real list \<Rightarrow> nat \<Rightarrow> nat \<Rightarrow> nat \<times> ModelParametersLWR \<Rightarrow> nat \<times> ModelParametersLWR" where
  "set_widths_loop values seg_size n_dims start =
     fold (\<lambda>i_dim (offset, m).
             (let seg = segment values offset seg_size;
                  m = (if col (widths m) i_dim \<noteq> seg then clearCache m else m);
                  m = m\<lparr>widths := set_col (widths m) i_dim seg\<rparr>
              in (offset + seg_size, m)))
          [0..<n_dims] start"

definition set_slopes_loop ::
  "real list \<Rightarrow> nat \<Rightarrow> nat \<Rightarrow> nat \<times> ModelParametersLWR \<Rightarrow> nat \<times> ModelParametersLWR" where
  "set_slopes_loop values seg_size n_dims start =
     fold (\<lambda>i_dim (offset, m).
             (let seg = segment values offset seg_size;
                  m = m\<lparr>slopes := set_col (slopes m) i_dim seg\<rparr>
              in (offset + seg_size, m)))
          [0..<n_dims] start"

text \<open>
  \<^verbatim>\<open>setParameterVectorAll\<close>. The result carries what the call wrote to the error stream;
  \<open>None\<close> is the failure of the final assertion.
\<close>

definition setParameterVectorAll ::
  "ModelParametersLWR \<Rightarrow> real list \<Rightarrow> (string list \<times> ModelParametersLWR) option" where
  "setParameterVectorAll m values =
     (if all_values_vector_size m \<noteq> length values
      then Some ([''values is of wrong size.''], m)
      else
        (let seg_size = rows (centers m);
             n_dims = cols (centers m);
             (offset, m) = set_centers_loop values seg_size n_dims (0, m);
             (offset, m) = set_widths_loop values seg_size n_dims (offset, m);
             m = m\<lparr>offsets := of_vector (segment values offset seg_size)\<rparr>;
             offset = offset + seg_size;
             (offset, m) = set_slopes_loop values seg_size n_dims (offset, m)
         in if offset = getParameterVectorAllSize m then Some ([], m) else None))"

section \<open>The class invariant\<close>

text \<open>
  What the constructor asserts and every operation keeps: the four matrices are
  rectangular and of matching shapes, the stored size is the number of their entries, and
  the angle representation of slopes is off (its setter forces it off).
\<close>

definition model_inv :: "ModelParametersLWR \<Rightarrow> bool" where
  "model_inv m =
     (wf_matrix (centers m) \<and> wf_matrix (widths m) \<and>
      wf_matrix (slopes m) \<and> wf_matrix (offsets m) \<and>
      rows (widths m) = rows (centers m) \<and> cols (widths m) = cols (centers m) \<and>
      rows (slopes m) = rows (centers m) \<and> cols (slopes m) = cols (centers m) \<and>
      rows (offsets m) = rows (centers m) \<and> cols (offsets m) = 1 \<and>
      all_values_vector_size m =
        rows (centers m) * cols (centers m) + rows (widths m) * cols (widths m) +
        rows (offsets m) * cols (offsets m) + rows (slopes m) * cols (slopes m) \<and>
      \<not> slopes_as_angles m)"

text \<open>The model of the spec's scenario: two basis functions over one input dimension.\<close>

definition example_model :: ModelParametersLWR where
  "example_model =
     \<lparr>centers = \<lparr>rows = 2, coldata = [[0, 10]]\<rparr>,
      widths = \<lparr>rows = 2, coldata = [[2, 2]]\<rparr>,
      slopes = \<lparr>rows = 2, coldata = [[1, 1]]\<rparr>,
      offsets = \<lparr>rows = 2, coldata = [[0, 0]]\<rparr>,
      asymmetric_kernels = False,
      lines_pivot_at_max_activation = False,
      slopes_as_angles = False,
      all_values_vector_size = 8,
      caching = True,
      inputs_cached = empty_matrix,
      normalized_kernel_activations_cached = empty_matrix\<rparr>"

definition pivot_model :: ModelParametersLWR where
  "pivot_model = example_model\<lparr>lines_pivot_at_max_activation := True\<rparr>"

section \<open>Notions the properties are stated with\<close>

text \<open>
  The raw activation of basis function \<open>b\<close> at sample \<open>s\<close> and the sum of a sample's raw
  activations, as closed expressions; the widths of a model are meant to be nonzero (the
  spec asks for positive widths, the code does not check them), and the properties that
  rest on the sign of an activation assume it, because a division by zero is not what
  the reals of this model compute.
\<close>

definition raw_activation :: "MatrixXd \<Rightarrow> MatrixXd \<Rightarrow> MatrixXd \<Rightarrow> bool \<Rightarrow> nat \<Rightarrow> nat \<Rightarrow> real" where
  "raw_activation C W X asymmetric s b = (\<Prod>d<cols C. kernel_factor C W X asymmetric b d s)"

definition nonzero_entries :: "MatrixXd \<Rightarrow> bool" where
  "nonzero_entries M = list_all (\<lambda>c. list_all (\<lambda>w. w \<noteq> 0) c) (coldata M)"

definition row_sum_raw :: "MatrixXd \<Rightarrow> MatrixXd \<Rightarrow> MatrixXd \<Rightarrow> bool \<Rightarrow> nat \<Rightarrow> real" where
  "row_sum_raw C W X asymmetric s =
     sum_list (map (\<lambda>b. raw_activation C W X asymmetric s b) [0..<rows C])"

text \<open>
  The raw activation with the exponential as a parameter, and two batches for the example
  model: one with a sample far from both centers, one with both samples near.
\<close>

definition raw_activation_with ::
  "(real \<Rightarrow> real) \<Rightarrow> MatrixXd \<Rightarrow> MatrixXd \<Rightarrow> MatrixXd \<Rightarrow> bool \<Rightarrow> nat \<Rightarrow> nat \<Rightarrow> real" where
  "raw_activation_with ex C W X asymmetric s b =
     (\<Prod>d<cols C. kernel_factor_with ex C W X asymmetric b d s)"

definition far_batch :: MatrixXd where
  "far_batch = \<lparr>rows = 2, coldata = [[5, 1000]]\<rparr>"

definition near_batch :: MatrixXd where
  "near_batch = \<lparr>rows = 2, coldata = [[0, 5]]\<rparr>"

text \<open>
  The columns \<^verbatim>\<open>setParameterVectorAll\<close> reads from the flat vector for one matrix, and the
  test that decides whether it clears the cache.
\<close>

definition blocks :: "real list \<Rightarrow> nat \<Rightarrow> nat \<Rightarrow> nat \<Rightarrow> real list list" where
  "blocks v off n d = map (\<lambda>i. segment v (off + i * n) n) [0..<d]"

definition cache_cleared_by :: "ModelParametersLWR \<Rightarrow> real list \<Rightarrow> bool" where
  "cache_cleared_by m v =
     (let n = rows (centers m); d = cols (centers m) in
      list_ex (\<lambda>i. col (centers m) i \<noteq> segment v (i * n) n) [0..<d] \<or>
      list_ex (\<lambda>i. col (widths m) i \<noteq> segment v (d * n + i * n) n) [0..<d])"

text \<open>The example model after it was asked for the activations at the input 5.\<close>

definition cached_model :: ModelParametersLWR where
  "cached_model =
     example_model\<lparr>inputs_cached := \<lparr>rows = 1, coldata = [[5]]\<rparr>,
                   normalized_kernel_activations_cached := \<lparr>rows = 1, coldata = [[1 / 2], [1 / 2]]\<rparr>\<rparr>"

text \<open>
  Two models as the constructor returns them, each with one basis function: one over no
  input dimension and one over one input dimension.
\<close>

definition zero_dim_model :: ModelParametersLWR where
  "zero_dim_model =
     \<lparr>centers = \<lparr>rows = 1, coldata = []\<rparr>,
      widths = \<lparr>rows = 1, coldata = []\<rparr>,
      slopes = \<lparr>rows = 1, coldata = []\<rparr>,
      offsets = \<lparr>rows = 1, coldata = [[0]]\<rparr>,
      asymmetric_kernels = False,
      lines_pivot_at_max_activation = False,
      slopes_as_angles = False,
      all_values_vector_size = 1,
      caching = True,
      inputs_cached = empty_matrix,
      normalized_kernel_activations_cached = empty_matrix\<rparr>"

definition single_basis_model :: ModelParametersLWR where
  "single_basis_model =
     \<lparr>centers = \<lparr>rows = 1, coldata = [[3]]\<rparr>,
      widths = \<lparr>rows = 1, coldata = [[2]]\<rparr>,
      slopes = \<lparr>rows = 1, coldata = [[1]]\<rparr>,
      offsets = \<lparr>rows = 1, coldata = [[0]]\<rparr>,
      asymmetric_kernels = False,
      lines_pivot_at_max_activation = False,
      slopes_as_angles = False,
      all_values_vector_size = 4,
      caching = True,
      inputs_cached = empty_matrix,
      normalized_kernel_activations_cached = empty_matrix\<rparr>"

text \<open>
  The cache is consistent when it is empty or holds what the static routine computes, on
  the current centers and widths, for the inputs it stores.
\<close>

definition cache_ok :: "ModelParametersLWR \<Rightarrow> bool" where
  "cache_ok m =
     ((inputs_cached m = empty_matrix \<and> normalized_kernel_activations_cached m = empty_matrix) \<or>
      normalizedKernelActivations_static (centers m) (widths m) (inputs_cached m)
          (asymmetric_kernels m) = Some (normalized_kernel_activations_cached m))"

section \<open>Properties\<close>

lemma model_inv_example_model: "model_inv example_model"
  by (simp add: model_inv_def example_model_def wf_matrix_def cols_def)

lemma upt_0_2: "[0..<2] = [0, 1]"
  by (simp add: numeral_2_eq_2)

subsection \<open>The pivot toggle\<close>

lemma length_slopes_times_centers: "length (slopes_times_centers m) = rows (centers m)"
  by (simp add: slopes_times_centers_def)

lemma one_column:
  assumes "wf_matrix M" "cols M = 1"
  shows "\<exists>c. coldata M = [c] \<and> length c = rows M"
proof -
  from assms(2) obtain c where c: "coldata M = [c]"
    by (cases "coldata M") (auto simp: cols_def)
  with assms(1) show ?thesis by (simp add: wf_matrix_def)
qed

lemma map2_add_sub: "length a = length b \<Longrightarrow>
  map (\<lambda>(x, y). x - y) (zip (map (\<lambda>(x, y). x + y) (zip a b)) b) = (a :: real list)"
  by (induction a b rule: list_induct2) auto

lemma map2_sub_add: "length a = length b \<Longrightarrow>
  map (\<lambda>(x, y). x + y) (zip (map (\<lambda>(x, y). x - y) (zip a b)) b) = (a :: real list)"
  by (induction a b rule: list_induct2) auto

lemma add_then_sub:
  assumes "wf_matrix M" "cols M = 1" "length v = rows M"
  shows "mat_sub (mat_add M (of_vector v)) (of_vector v) = M"
proof -
  from one_column [OF assms(1,2)] obtain c where c: "coldata M = [c]" "length c = rows M"
    by blast
  then show ?thesis using assms(3)
    by (simp add: mat_sub_def mat_add_def of_vector_def map2_add_sub)
qed

lemma sub_then_add:
  assumes "wf_matrix M" "cols M = 1" "length v = rows M"
  shows "mat_add (mat_sub M (of_vector v)) (of_vector v) = M"
proof -
  from one_column [OF assms(1,2)] obtain c where c: "coldata M = [c]" "length c = rows M"
    by blast
  then show ?thesis using assms(3)
    by (simp add: mat_sub_def mat_add_def of_vector_def map2_sub_add)
qed

lemma slopes_times_centers_offsets [simp]:
  "slopes_times_centers (m\<lparr>offsets := off\<rparr>) = slopes_times_centers m"
  by (simp add: slopes_times_centers_def)

lemma slopes_times_centers_pivot [simp]:
  "slopes_times_centers (m\<lparr>lines_pivot_at_max_activation := p\<rparr>) = slopes_times_centers m"
  by (simp add: slopes_times_centers_def)

lemma double_toggle_state:
  assumes "model_inv m"
  shows "set_lines_pivot_at_max_activation
           (set_lines_pivot_at_max_activation m (\<not> lines_pivot_at_max_activation m))
           (lines_pivot_at_max_activation m) = m"
proof -
  have wf: "wf_matrix (offsets m)" and c1: "cols (offsets m) = 1"
    and len: "length (slopes_times_centers m) = rows (offsets m)"
    using assms by (simp_all add: model_inv_def length_slopes_times_centers)
  show ?thesis
  proof (cases "lines_pivot_at_max_activation m")
    case True
    then show ?thesis
      by (simp add: set_lines_pivot_at_max_activation_def Let_def sub_then_add [OF wf c1 len])
  next
    case False
    then show ?thesis
      by (simp add: set_lines_pivot_at_max_activation_def Let_def add_then_sub [OF wf c1 len])
  qed
qed

lemma dot_rows:
  assumes "cols A = cols B"
  shows "dot (row A i) (row B i) = (\<Sum>d<cols A. coeff A i d * coeff B i d)"
proof -
  have len: "length (coldata A) = length (coldata B)"
    using assms by (simp add: cols_def)
  have "dot (row A i) (row B i) =
        sum_list (map (\<lambda>d. coeff A i d * coeff B i d) [0..<length (coldata A)])"
    unfolding dot_def row_def coeff_def
    by (rule arg_cong [where f = sum_list], rule nth_equalityI) (simp_all add: len)
  also have "\<dots> = (\<Sum>d<cols A. coeff A i d * coeff B i d)"
    by (simp add: interv_sum_list_conv_sum_set_nat cols_def atLeast0LessThan)
  finally show ?thesis .
qed

lemma slopes_times_centers_nth:
  assumes "model_inv m" "b < rows (centers m)"
  shows "slopes_times_centers m ! b =
         (\<Sum>d<cols (centers m). coeff (slopes m) b d * coeff (centers m) b d)"
proof -
  have "cols (slopes m) = cols (centers m)"
    using assms(1) by (simp add: model_inv_def)
  then show ?thesis
    using assms(2) by (simp add: slopes_times_centers_def dot_rows)
qed

lemma coeff_add_vector:
  assumes "wf_matrix M" "cols M = 1" "length v = rows M" "b < rows M"
  shows "coeff (mat_add M (of_vector v)) b 0 = coeff M b 0 + v ! b"
proof -
  from one_column [OF assms(1,2)] obtain c where c: "coldata M = [c]" "length c = rows M"
    by blast
  then show ?thesis using assms(3,4)
    by (simp add: mat_add_def of_vector_def coeff_def)
qed

lemma coeff_sub_vector:
  assumes "wf_matrix M" "cols M = 1" "length v = rows M" "b < rows M"
  shows "coeff (mat_sub M (of_vector v)) b 0 = coeff M b 0 - v ! b"
proof -
  from one_column [OF assms(1,2)] obtain c where c: "coldata M = [c]" "length c = rows M"
    by blast
  then show ?thesis using assms(3,4)
    by (simp add: mat_sub_def of_vector_def coeff_def)
qed

lemma shape_add_vector: "cols M = 1 \<Longrightarrow> cols (mat_add M (of_vector v)) = 1 \<and> rows (mat_add M (of_vector v)) = rows M"
  by (simp add: mat_add_def of_vector_def cols_def)

lemma shape_sub_vector: "cols M = 1 \<Longrightarrow> cols (mat_sub M (of_vector v)) = 1 \<and> rows (mat_sub M (of_vector v)) = rows M"
  by (simp add: mat_sub_def of_vector_def cols_def)

text \<open>
  Claim C6. \<^verbatim>\<open>set_lines_pivot_at_max_activation\<close> does nothing when the new value is the
  current flag. When the value changes, the flag takes the new value and every offset
  \<open>b\<close> gains (switching to the pivot) or loses (switching away) the dot product of row
  \<open>b\<close> of the slopes with row \<open>b\<close> of the centers; centers, widths, slopes, the other
  flags and both members of the activation cache are what they were.
\<close>

theorem pivot_toggle_frame:
  assumes "model_inv m"
  shows "set_lines_pivot_at_max_activation m (lines_pivot_at_max_activation m) = m \<and>
         (new_value \<noteq> lines_pivot_at_max_activation m \<longrightarrow>
            (let m' = set_lines_pivot_at_max_activation m new_value in
               lines_pivot_at_max_activation m' = new_value \<and>
               centers m' = centers m \<and> widths m' = widths m \<and> slopes m' = slopes m \<and>
               asymmetric_kernels m' = asymmetric_kernels m \<and>
               slopes_as_angles m' = slopes_as_angles m \<and>
               all_values_vector_size m' = all_values_vector_size m \<and>
               caching m' = caching m \<and>
               inputs_cached m' = inputs_cached m \<and>
               normalized_kernel_activations_cached m' = normalized_kernel_activations_cached m \<and>
               rows (offsets m') = rows (offsets m) \<and> cols (offsets m') = 1 \<and>
               (\<forall>b<rows (centers m).
                  coeff (offsets m') b 0 =
                    (if new_value
                     then coeff (offsets m) b 0 +
                          (\<Sum>d<cols (centers m). coeff (slopes m) b d * coeff (centers m) b d)
                     else coeff (offsets m) b 0 -
                          (\<Sum>d<cols (centers m). coeff (slopes m) b d * coeff (centers m) b d)))))"
proof -
  have wf: "wf_matrix (offsets m)" and c1: "cols (offsets m) = 1"
    and len: "length (slopes_times_centers m) = rows (offsets m)"
    and r: "rows (offsets m) = rows (centers m)"
    using assms by (simp_all add: model_inv_def length_slopes_times_centers)
  have same: "set_lines_pivot_at_max_activation m (lines_pivot_at_max_activation m) = m"
    by (simp add: set_lines_pivot_at_max_activation_def)
  have entries: "coeff (mat_add (offsets m) (of_vector (slopes_times_centers m))) b 0 =
        coeff (offsets m) b 0 +
        (\<Sum>d<cols (centers m). coeff (slopes m) b d * coeff (centers m) b d)"
       "coeff (mat_sub (offsets m) (of_vector (slopes_times_centers m))) b 0 =
        coeff (offsets m) b 0 -
        (\<Sum>d<cols (centers m). coeff (slopes m) b d * coeff (centers m) b d)"
    if "b < rows (centers m)" for b
    using that r coeff_add_vector [OF wf c1 len, of b] coeff_sub_vector [OF wf c1 len, of b]
      slopes_times_centers_nth [OF assms, of b]
    by simp_all
  show ?thesis
    using same entries shape_add_vector [OF c1] shape_sub_vector [OF c1]
    by (simp add: set_lines_pivot_at_max_activation_def Let_def)
qed

text \<open>A witness of C6 on the example model.\<close>

theorem pivot_toggle_frame_witness:
  "model_inv example_model \<and>
   set_lines_pivot_at_max_activation example_model False = example_model \<and>
   centers (set_lines_pivot_at_max_activation example_model True) = centers example_model \<and>
   inputs_cached (set_lines_pivot_at_max_activation example_model True) = empty_matrix \<and>
   coeff (offsets (set_lines_pivot_at_max_activation example_model True)) 1 0 = 10"
proof -
  note t = pivot_toggle_frame [OF model_inv_example_model, of True]
  have p: "lines_pivot_at_max_activation example_model = False"
    and r: "rows (centers example_model) = 2" and c: "cols (centers example_model) = 1"
    by (simp_all add: example_model_def cols_def)
  from t have noop: "set_lines_pivot_at_max_activation example_model False = example_model"
    by (simp add: p)
  from t have frame:
    "centers (set_lines_pivot_at_max_activation example_model True) = centers example_model"
    "inputs_cached (set_lines_pivot_at_max_activation example_model True) =
       inputs_cached example_model"
    by (simp_all add: p Let_def)
  from t have "\<forall>b<2. coeff (offsets (set_lines_pivot_at_max_activation example_model True)) b 0 =
      coeff (offsets example_model) b 0 +
      (\<Sum>d<1. coeff (slopes example_model) b d * coeff (centers example_model) b d)"
    by (simp add: p r c Let_def)
  then have "coeff (offsets (set_lines_pivot_at_max_activation example_model True)) 1 0 =
      coeff (offsets example_model) 1 0 +
      (\<Sum>d<1. coeff (slopes example_model) 1 d * coeff (centers example_model) 1 d)"
    by simp
  then have entry: "coeff (offsets (set_lines_pivot_at_max_activation example_model True)) 1 0 = 10"
    by (simp add: example_model_def coeff_def)
  show ?thesis
    using model_inv_example_model noop frame entry by (simp add: example_model_def)
qed

text \<open>
  Claim C5. Toggling \<^verbatim>\<open>lines_pivot_at_max_activation\<close> to the other value and back restores
  the offsets exactly (over the reals), in fact the whole model, and \<^verbatim>\<open>getLines\<close> gives on
  every input batch what it gave before.
\<close>

theorem double_toggle_restores:
  assumes "model_inv m"
  shows "(let m2 = set_lines_pivot_at_max_activation
                     (set_lines_pivot_at_max_activation m (\<not> lines_pivot_at_max_activation m))
                     (lines_pivot_at_max_activation m)
          in offsets m2 = offsets m \<and> m2 = m \<and> getLines m2 X = getLines m X)"
  using double_toggle_state [OF assms] by (simp add: Let_def)

theorem double_toggle_restores_witness:
  "model_inv example_model \<and>
   offsets (set_lines_pivot_at_max_activation
              (set_lines_pivot_at_max_activation example_model True) False) =
     \<lparr>rows = 2, coldata = [[0, 0]]\<rparr> \<and>
   getLines (set_lines_pivot_at_max_activation
               (set_lines_pivot_at_max_activation example_model True) False)
            \<lparr>rows = 1, coldata = [[5]]\<rparr> =
     getLines example_model \<lparr>rows = 1, coldata = [[5]]\<rparr>"
proof -
  have p: "lines_pivot_at_max_activation example_model = False"
    by (simp add: example_model_def)
  have o: "offsets example_model = \<lparr>rows = 2, coldata = [[0, 0]]\<rparr>"
    by (simp add: example_model_def)
  show ?thesis
    using double_toggle_restores [OF model_inv_example_model, of "\<lparr>rows = 1, coldata = [[5]]\<rparr>"]
      model_inv_example_model
    by (simp add: p o Let_def)
qed

text \<open>
  Claim C8. \<^verbatim>\<open>setParameterVectorAll\<close> with a vector whose length is not
  \<^verbatim>\<open>getParameterVectorAllSize()\<close> writes one message to the error stream and returns the
  model as it was: matrices, flags and cache.
\<close>

theorem wrong_size_is_noop:
  assumes "length values \<noteq> getParameterVectorAllSize m"
  shows "setParameterVectorAll m values = Some ([''values is of wrong size.''], m)"
  using assms by (auto simp add: setParameterVectorAll_def getParameterVectorAllSize_def)

theorem wrong_size_is_noop_witness:
  "length [1, 2, 3 :: real] \<noteq> getParameterVectorAllSize example_model \<and>
   setParameterVectorAll example_model [1, 2, 3] =
     Some ([''values is of wrong size.''], example_model)"
proof -
  have h: "length [1, 2, 3 :: real] \<noteq> getParameterVectorAllSize example_model"
    by (simp add: getParameterVectorAllSize_def example_model_def)
  show ?thesis using h wrong_size_is_noop [OF h] by simp
qed

text \<open>
  Claim C9 says the clone's flags are reconstructed to the pivot-off state. The clone of
  a model whose pivot flag is on has its pivot flag on: \<^verbatim>\<open>clone\<close> hands both flags to the
  constructor.
\<close>

theorem clone_resets_flags_counterexample:
  "map_option lines_pivot_at_max_activation (clone pivot_model) = Some True"
  by (simp add: clone_def pivot_model_def example_model_def new_ModelParametersLWR_def cols_def)

text \<open>
  Claim C9, amended. The clone of a model has the model's centers, widths, slopes and
  offsets and its two flags \<^verbatim>\<open>asymmetric_kernels\<close> and \<^verbatim>\<open>lines_pivot_at_max_activation\<close>;
  its cache is empty, its caching is on and its angle representation is off.
\<close>

theorem clone_copies:
  assumes "model_inv m"
  shows "\<exists>m'. clone m = Some m' \<and>
           centers m' = centers m \<and> widths m' = widths m \<and>
           slopes m' = slopes m \<and> offsets m' = offsets m \<and>
           asymmetric_kernels m' = asymmetric_kernels m \<and>
           lines_pivot_at_max_activation m' = lines_pivot_at_max_activation m \<and>
           all_values_vector_size m' = all_values_vector_size m \<and>
           slopes_as_angles m' = False \<and> caching m' = True \<and>
           inputs_cached m' = empty_matrix \<and>
           normalized_kernel_activations_cached m' = empty_matrix \<and>
           model_inv m'"
  using assms by (simp add: clone_def new_ModelParametersLWR_def model_inv_def)

theorem clone_copies_witness:
  "model_inv pivot_model \<and>
   (\<exists>m'. clone pivot_model = Some m' \<and>
         lines_pivot_at_max_activation m' = True \<and>
         centers m' = \<lparr>rows = 2, coldata = [[0, 10]]\<rparr> \<and>
         inputs_cached m' = empty_matrix)"
proof -
  have i: "model_inv pivot_model"
    using model_inv_example_model by (simp add: model_inv_def pivot_model_def)
  have f: "lines_pivot_at_max_activation pivot_model = True"
    "centers pivot_model = \<lparr>rows = 2, coldata = [[0, 10]]\<rparr>"
    by (simp_all add: pivot_model_def example_model_def)
  from clone_copies [OF i] obtain m' where
    "clone pivot_model = Some m'"
    "lines_pivot_at_max_activation m' = lines_pivot_at_max_activation pivot_model"
    "centers m' = centers pivot_model" "inputs_cached m' = empty_matrix"
    by blast
  with i f show ?thesis by simp
qed

subsection \<open>Kernel activations and their normalisation\<close>

lemma fold_update_prefix:
  fixes xs :: "real list"
  assumes "k \<le> length xs"
  shows "fold (\<lambda>i ys. ys[i := ys ! i * f i]) [0..<k] xs =
         map (\<lambda>i. xs ! i * f i) [0..<k] @ drop k xs"
  using assms
proof (induction k)
  case 0
  then show ?case by simp
next
  case (Suc k)
  then have k: "k < length xs" by simp
  have d: "drop k xs = xs ! k # drop (Suc k) xs"
    using k by (simp add: Cons_nth_drop_Suc)
  show ?case
    using Suc.IH k by (simp add: d list_update_append nth_append)
qed

lemma fold_update_all:
  fixes xs :: "real list"
  shows "fold (\<lambda>i ys. ys[i := ys ! i * f i]) [0..<length xs] xs =
         map (\<lambda>i. xs ! i * f i) [0..<length xs]"
  using fold_update_prefix [of "length xs" xs f] by simp

lemma fold_dims:
  "fold (\<lambda>i_dim colv. fold (\<lambda>i_s colv. colv[i_s := colv ! i_s * f i_dim i_s]) [0..<n] colv)
        [0..<D] (replicate n (1::real)) =
   map (\<lambda>s. \<Prod>d<D. f d s) [0..<n]"
proof (induction D)
  case 0
  show ?case by (simp add: map_replicate_const)
next
  case (Suc D)
  let ?P = "map (\<lambda>s. \<Prod>d<D. f d s) [0..<n]"
  have "fold (\<lambda>i_s colv. colv[i_s := colv ! i_s * f D i_s]) [0..<n] ?P =
        map (\<lambda>i. ?P ! i * f D i) [0..<n]"
    using fold_update_all [where xs = ?P and f = "f D"] by simp
  also have "\<dots> = map (\<lambda>s. \<Prod>d<Suc D. f d s) [0..<n]"
    by (rule map_cong) simp_all
  finally show ?case using Suc.IH by simp
qed

lemma kernelActivations_static_eq:
  assumes "rows W = rows C" "cols W = cols C" "cols X = cols C"
  shows "kernelActivations_static C W X asymmetric =
         Some \<lparr>rows = rows X,
               coldata = map (\<lambda>bb. map (\<lambda>s. \<Prod>d<cols C. kernel_factor C W X asymmetric bb d s)
                                       [0..<rows X])
                             [0..<rows C]\<rparr>"
  using assms by (simp add: kernelActivations_static_def Let_def fold_dims)

lemma kernel_factor_formula:
  "kernel_factor C W X asymmetric b d s =
   exp (- 0.5 * (coeff X s d - coeff C b d)\<^sup>2 /
        (if asymmetric \<and> coeff X s d < coeff C b d \<and> 0 < b
         then coeff W (b - 1) d else coeff W b d)\<^sup>2)"
  by (simp add: kernel_factor_def Let_def power2_eq_square)

text \<open>
  Claim C7. For a sample \<open>s\<close> and a basis function \<open>b\<close>, the activation the loops of
  \<^verbatim>\<open>kernelActivations\<close> leave in \<^verbatim>\<open>kernel_activations(s,b)\<close> is the product, over the
  dimensions \<open>d\<close>, of \<open>exp (- 0.5 (x(s,d) - c(b,d))\<^sup>2 / w\<^sup>2)\<close>, where \<open>w\<close> is the width of
  \<open>b\<close> on \<open>d\<close>, or the width of \<open>b - 1\<close> on \<open>d\<close> when the kernels are asymmetric, the
  sample lies below the center and \<open>b\<close> is not the first basis function. The product
  over no dimension is 1, the value the column is filled with. Both sides carry the same
  quotient, so the statement does not depend on how a division by a zero width is read.
\<close>

theorem kernel_activation_product:
  assumes "rows W = rows C" "cols W = cols C" "cols X = cols C"
    and "s < rows X" "b < rows C"
  shows "\<exists>K. kernelActivations_static C W X asymmetric = Some K \<and>
             rows K = rows X \<and> cols K = rows C \<and>
             coeff K s b =
               (\<Prod>d<cols C.
                  exp (- 0.5 * (coeff X s d - coeff C b d)\<^sup>2 /
                       (if asymmetric \<and> coeff X s d < coeff C b d \<and> 0 < b
                        then coeff W (b - 1) d else coeff W b d)\<^sup>2))"
proof -
  let ?K = "\<lparr>rows = rows X,
             coldata = map (\<lambda>bb. map (\<lambda>s. \<Prod>d<cols C. kernel_factor C W X asymmetric bb d s)
                                     [0..<rows X])
                           [0..<rows C]\<rparr>"
  have K: "kernelActivations_static C W X asymmetric = Some ?K"
    using assms(1-3) by (rule kernelActivations_static_eq)
  have shape: "rows ?K = rows X" "cols ?K = rows C"
    by (simp_all add: cols_def)
  have "coeff ?K s b = (\<Prod>d<cols C. kernel_factor C W X asymmetric b d s)"
    using assms(4,5) by (simp add: coeff_def)
  then have entry: "coeff ?K s b =
      (\<Prod>d<cols C.
         exp (- 0.5 * (coeff X s d - coeff C b d)\<^sup>2 /
              (if asymmetric \<and> coeff X s d < coeff C b d \<and> 0 < b
               then coeff W (b - 1) d else coeff W b d)\<^sup>2))"
    by (simp only: kernel_factor_formula)
  from K shape entry show ?thesis by blast
qed

theorem kernel_activation_product_witness:
  "(\<exists>K. kernelActivations_static \<lparr>rows = 2, coldata = [[0, 10]]\<rparr> \<lparr>rows = 2, coldata = [[2, 4]]\<rparr>
          \<lparr>rows = 1, coldata = [[6]]\<rparr> True = Some K \<and>
        coeff K 0 1 = exp (- 2) \<and> coeff K 0 0 = exp (- (9 / 2)))"
proof -
  let ?C = "\<lparr>rows = 2, coldata = [[0, 10]]\<rparr>"
  let ?W = "\<lparr>rows = 2, coldata = [[2, 4]]\<rparr>"
  let ?X = "\<lparr>rows = 1, coldata = [[6]]\<rparr>"
  have h: "rows ?W = rows ?C" "cols ?W = cols ?C" "cols ?X = cols ?C" "0 < rows ?X"
    "1 < rows ?C" "0 < rows ?C"
    by (simp_all add: cols_def)
  from kernel_activation_product [OF h(1-3) h(4) h(5), of True]
  obtain K where K: "kernelActivations_static ?C ?W ?X True = Some K"
    and k1: "coeff K 0 1 = exp (- 2)"
    by (auto simp add: cols_def coeff_def)
  from kernel_activation_product [OF h(1-3) h(4) h(6), of True] K
  have k0: "coeff K 0 0 = exp (- (9 / 2))"
    by (auto simp add: cols_def coeff_def)
  from K k1 k0 show ?thesis by blast
qed

lemma raw_activation_pos: "0 < raw_activation C W X asymmetric s b"
  by (simp add: raw_activation_def kernel_factor_def Let_def prod_pos)

lemma sum_list_pos_nonempty:
  fixes xs :: "real list"
  assumes "xs \<noteq> []" "list_all (\<lambda>x. 0 < x) xs"
  shows "0 < sum_list xs"
  using assms by (induction xs) (auto simp: add_pos_nonneg sum_list_nonneg list_all_iff less_imp_le)

lemma kernelActivations_static_raw:
  assumes "rows W = rows C" "cols W = cols C" "cols X = cols C"
  shows "kernelActivations_static C W X asymmetric =
         Some \<lparr>rows = rows X,
               coldata = map (\<lambda>b. map (\<lambda>s. raw_activation C W X asymmetric s b) [0..<rows X])
                             [0..<rows C]\<rparr>"
  using kernelActivations_static_eq [OF assms] by (simp add: raw_activation_def)

lemma row_of_table:
  assumes "s < n"
  shows "row \<lparr>rows = n, coldata = map (\<lambda>b. map (\<lambda>s. A s b) [0..<n]) [0..<B]\<rparr> s =
         map (\<lambda>b. A s b) [0..<B]"
  using assms by (simp add: row_def)

lemma rowwise_sum_of_table:
  "rowwise_sum \<lparr>rows = n, coldata = map (\<lambda>b. map (\<lambda>s. A s b) [0..<n]) [0..<B]\<rparr> =
   map (\<lambda>s. sum_list (map (\<lambda>b. A s b) [0..<B])) [0..<n]"
  by (simp add: rowwise_sum_def row_of_table)

lemma map2_divide_same:
  "map (\<lambda>(a, t). a / t) (zip (map f xs) (map g xs)) = map (\<lambda>s. f s / (g s :: real)) xs"
  by (simp add: zip_map_map zip_same_conv_map comp_def)

lemma row_sum_raw_pos:
  assumes "0 < rows C"
  shows "0 < row_sum_raw C W X asymmetric s"
  unfolding row_sum_raw_def
  by (rule sum_list_pos_nonempty) (use assms in \<open>simp_all add: list_all_iff raw_activation_pos\<close>)

lemma rowwise_sum_raw:
  "rowwise_sum \<lparr>rows = rows X,
       coldata = map (\<lambda>b. map (\<lambda>s. raw_activation C W X asymmetric s b) [0..<rows X])
                     [0..<rows C]\<rparr> =
   map (row_sum_raw C W X asymmetric) [0..<rows X]"
  by (simp add: rowwise_sum_of_table row_sum_raw_def)

lemma no_zero_row_sum:
  assumes "0 < rows C"
  shows "\<not> list_ex (\<lambda>t. t = 0) (map (row_sum_raw C W X asymmetric) [0..<n])"
proof -
  have "row_sum_raw C W X asymmetric s \<noteq> 0" for s
    using row_sum_raw_pos [OF assms, of W X asymmetric s] by simp
  then show ?thesis by (auto simp add: list_ex_iff)
qed

lemma normalized_static_eq:
  assumes "1 < rows C" "rows W = rows C" "cols W = cols C" "cols X = cols C"
  shows "normalizedKernelActivations_static C W X asymmetric =
         Some \<lparr>rows = rows X,
               coldata = map (\<lambda>b. map (\<lambda>s. raw_activation C W X asymmetric s b /
                                            row_sum_raw C W X asymmetric s) [0..<rows X])
                             [0..<rows C]\<rparr>"
proof -
  have pos: "0 < rows C" and ne: "rows C \<noteq> 1" using assms(1) by simp_all
  show ?thesis
    using ne
    by (simp add: normalizedKernelActivations_static_def Let_def
        kernelActivations_static_raw [OF assms(2-4)] rowwise_sum_raw
        no_zero_row_sum [OF pos] map2_divide_same)
qed

text \<open>
  Claim C10. With more than one basis function, over the reals, every raw activation is
  positive, so every row sum is positive, no row sum is zero (the branch that adds
  \<^verbatim>\<open>maxCoeff()/100000\<close> is not taken) and the result is the raw activations divided by
  their own, nonzero, row sums.
\<close>

theorem normalization_divisors_positive:
  assumes "1 < rows C" "rows W = rows C" "cols W = cols C" "cols X = cols C"
    and "nonzero_entries W"
  shows "\<exists>K. kernelActivations_static C W X asymmetric = Some K \<and>
             (\<forall>s<rows X. \<forall>b<rows C. 0 < coeff K s b) \<and>
             list_all (\<lambda>t. 0 < t) (rowwise_sum K) \<and>
             \<not> list_ex (\<lambda>t. t = 0) (rowwise_sum K) \<and>
             normalizedKernelActivations_static C W X asymmetric =
               Some \<lparr>rows = rows X,
                     coldata = map (\<lambda>c. map (\<lambda>(a, t). a / t) (zip c (rowwise_sum K)))
                                 (coldata K)\<rparr>"
proof -
  let ?K = "\<lparr>rows = rows X,
       coldata = map (\<lambda>b. map (\<lambda>s. raw_activation C W X asymmetric s b) [0..<rows X])
                     [0..<rows C]\<rparr>"
  have pos: "0 < rows C" using assms(1) by simp
  have K: "kernelActivations_static C W X asymmetric = Some ?K"
    by (rule kernelActivations_static_raw [OF assms(2-4)])
  have entries: "\<forall>s<rows X. \<forall>b<rows C. 0 < coeff ?K s b"
    by (simp add: coeff_def raw_activation_pos)
  have sums: "list_all (\<lambda>t. 0 < t) (rowwise_sum ?K)"
    by (simp add: rowwise_sum_raw list_all_iff row_sum_raw_pos [OF pos])
  have nz: "\<not> list_ex (\<lambda>t. t = 0) (rowwise_sum ?K)"
    by (simp only: rowwise_sum_raw no_zero_row_sum [OF pos] not_False_eq_True)
  have N: "normalizedKernelActivations_static C W X asymmetric =
        Some \<lparr>rows = rows X,
              coldata = map (\<lambda>c. map (\<lambda>(a, t). a / t) (zip c (rowwise_sum ?K))) (coldata ?K)\<rparr>"
    by (simp add: normalized_static_eq [OF assms(1-4)] rowwise_sum_raw map2_divide_same)
  from K entries sums nz N show ?thesis by blast
qed

lemma sum_list_divide:
  fixes f :: "nat \<Rightarrow> real"
  shows "sum_list (map (\<lambda>b. f b / t) [0..<B]) = sum_list (map f [0..<B]) / t"
  by (simp add: interv_sum_list_conv_sum_set_nat sum_divide_distrib)

text \<open>
  With the real exponential: one basis function gives the matrix of ones, and with more
  than one basis function every row of the returned matrix sums to one.
\<close>

lemma rows_sum_to_one_exact:
  "(rows C = 1 \<longrightarrow>
      normalizedKernelActivations_static C W X asymmetric =
        Some \<lparr>rows = rows X, coldata = [replicate (rows X) 1]\<rparr>) \<and>
   (1 < rows C \<and> rows W = rows C \<and> cols W = cols C \<and> cols X = cols C \<and> nonzero_entries W \<longrightarrow>
      (\<exists>N. normalizedKernelActivations_static C W X asymmetric = Some N \<and>
            rows N = rows X \<and> cols N = rows C \<and>
            (\<forall>s<rows X. sum_list (row N s) = 1)))"
proof (intro conjI impI)
  assume "rows C = 1"
  then show "normalizedKernelActivations_static C W X asymmetric =
        Some \<lparr>rows = rows X, coldata = [replicate (rows X) 1]\<rparr>"
    by (simp add: normalizedKernelActivations_static_def Let_def)
next
  assume h: "1 < rows C \<and> rows W = rows C \<and> cols W = cols C \<and> cols X = cols C \<and> nonzero_entries W"
  let ?N = "\<lparr>rows = rows X,
               coldata = map (\<lambda>b. map (\<lambda>s. raw_activation C W X asymmetric s b /
                                            row_sum_raw C W X asymmetric s) [0..<rows X])
                             [0..<rows C]\<rparr>"
  have pos: "0 < rows C" using h by simp
  have N: "normalizedKernelActivations_static C W X asymmetric = Some ?N"
    using h by (simp add: normalized_static_eq)
  have shape: "rows ?N = rows X" "cols ?N = rows C" by (simp_all add: cols_def)
  have "sum_list (row ?N s) = 1" if "s < rows X" for s
  proof -
    have "sum_list (row ?N s) =
          sum_list (map (\<lambda>b. raw_activation C W X asymmetric s b / row_sum_raw C W X asymmetric s)
                      [0..<rows C])"
      using that by (simp only: row_of_table)
    also have "\<dots> = row_sum_raw C W X asymmetric s / row_sum_raw C W X asymmetric s"
      by (simp only: sum_list_divide row_sum_raw_def)
    also have "\<dots> = 1"
      using row_sum_raw_pos [OF pos, of W X asymmetric s] by simp
    finally show ?thesis .
  qed
  with N shape show "\<exists>N. normalizedKernelActivations_static C W X asymmetric = Some N \<and>
            rows N = rows X \<and> cols N = rows C \<and> (\<forall>s<rows X. sum_list (row N s) = 1)"
    by blast
qed

theorem normalization_divisors_positive_witness:
  "1 < rows (centers example_model) \<and> nonzero_entries (widths example_model) \<and>
   (\<exists>K. kernelActivations_static (centers example_model) (widths example_model)
           \<lparr>rows = 2, coldata = [[0, 5]]\<rparr> False = Some K \<and>
        list_all (\<lambda>t. 0 < t) (rowwise_sum K) \<and>
        \<not> list_ex (\<lambda>t. t = 0) (rowwise_sum K) \<and>
        normalizedKernelActivations_static (centers example_model) (widths example_model)
           \<lparr>rows = 2, coldata = [[0, 5]]\<rparr> False =
          Some \<lparr>rows = 2,
                coldata = map (\<lambda>c. map (\<lambda>(a, t). a / t) (zip c (rowwise_sum K))) (coldata K)\<rparr>)"
proof -
  let ?X = "\<lparr>rows = 2, coldata = [[0, 5]]\<rparr>"
  have h: "1 < rows (centers example_model)"
    "rows (widths example_model) = rows (centers example_model)"
    "cols (widths example_model) = cols (centers example_model)"
    "cols ?X = cols (centers example_model)"
    "nonzero_entries (widths example_model)"
    by (simp_all add: example_model_def cols_def nonzero_entries_def)
  from normalization_divisors_positive [OF h, of False] h(1,5)
  show ?thesis by auto
qed

subsection \<open>Normalisation when the exponential underflows\<close>

lemma kernel_factor_with_exp: "kernel_factor_with exp = kernel_factor"
  by (intro ext) (simp add: kernel_factor_with_def kernel_factor_def)

lemma kernelActivations_with_exp: "kernelActivations_with exp = kernelActivations_static"
  by (intro ext)
     (simp add: kernelActivations_with_def kernelActivations_static_def kernel_factor_with_exp
        Let_def)

lemma normalizedKernelActivations_with_exp:
  "normalizedKernelActivations_with exp = normalizedKernelActivations_static"
  by (intro ext)
     (simp add: normalizedKernelActivations_with_def normalizedKernelActivations_static_def
        kernelActivations_with_exp Let_def)

lemma kernelActivations_with_eq:
  assumes "rows W = rows C" "cols W = cols C" "cols X = cols C"
  shows "kernelActivations_with ex C W X asymmetric =
         Some \<lparr>rows = rows X,
               coldata = map (\<lambda>b. map (\<lambda>s. raw_activation_with ex C W X asymmetric s b)
                                     [0..<rows X])
                             [0..<rows C]\<rparr>"
  using assms
  by (simp add: kernelActivations_with_def Let_def fold_dims raw_activation_with_def)

lemma kernelActivations_with_Some:
  assumes "kernelActivations_with ex C W X asymmetric = Some K"
  shows "K = \<lparr>rows = rows X,
               coldata = map (\<lambda>b. map (\<lambda>s. raw_activation_with ex C W X asymmetric s b)
                                     [0..<rows X])
                             [0..<rows C]\<rparr>"
proof -
  have sh: "rows W = rows C" "cols W = cols C" "cols X = cols C"
    using assms by (auto simp add: kernelActivations_with_def Let_def split: if_splits)
  from kernelActivations_with_eq [OF sh, of ex asymmetric] assms show ?thesis by simp
qed

lemma normalized_table_rows:
  fixes A :: "nat \<Rightarrow> nat \<Rightarrow> real"
  assumes "s < n" "sum_list (map (\<lambda>b. A s b) [0..<B]) \<noteq> 0"
  shows "sum_list (row \<lparr>rows = n,
            coldata = map (\<lambda>b. map (\<lambda>s. A s b / sum_list (map (\<lambda>b. A s b) [0..<B])) [0..<n])
                        [0..<B]\<rparr> s) = 1"
proof -
  have "sum_list (row \<lparr>rows = n,
            coldata = map (\<lambda>b. map (\<lambda>s. A s b / sum_list (map (\<lambda>b. A s b) [0..<B])) [0..<n])
                        [0..<B]\<rparr> s) =
        sum_list (map (\<lambda>b. A s b / sum_list (map (\<lambda>b. A s b) [0..<B])) [0..<B])"
    using assms(1) by (simp only: row_of_table)
  also have "\<dots> = sum_list (map (\<lambda>b. A s b) [0..<B]) / sum_list (map (\<lambda>b. A s b) [0..<B])"
    by (simp only: sum_list_divide)
  also have "\<dots> = 1" using assms(2) by simp
  finally show ?thesis .
qed

text \<open>
  Claim C4, amended. With one basis function the static \<^verbatim>\<open>normalizedKernelActivations\<close>
  returns the matrix of ones, whatever the inputs, centers, widths and exponential. With
  more than one basis function, whenever no sample's raw activations sum to zero, every
  row of the returned matrix sums to one. This holds for every exponential, rounded or
  underflowing; sums, products and quotients are those of the reals.
\<close>

theorem rows_sum_to_one_unless_zero_sum:
  "(rows C = 1 \<longrightarrow>
      normalizedKernelActivations_with ex C W X asymmetric =
        Some \<lparr>rows = rows X, coldata = [replicate (rows X) 1]\<rparr>) \<and>
   (1 < rows C \<and> kernelActivations_with ex C W X asymmetric = Some K \<and>
    \<not> list_ex (\<lambda>t. t = 0) (rowwise_sum K) \<longrightarrow>
      (\<exists>N. normalizedKernelActivations_with ex C W X asymmetric = Some N \<and>
            rows N = rows X \<and> cols N = rows C \<and>
            (\<forall>s<rows X. sum_list (row N s) = 1)))"
proof (intro conjI impI)
  assume "rows C = 1"
  then show "normalizedKernelActivations_with ex C W X asymmetric =
        Some \<lparr>rows = rows X, coldata = [replicate (rows X) 1]\<rparr>"
    by (simp add: normalizedKernelActivations_with_def Let_def)
next
  assume h: "1 < rows C \<and> kernelActivations_with ex C W X asymmetric = Some K \<and>
    \<not> list_ex (\<lambda>t. t = 0) (rowwise_sum K)"
  let ?A = "raw_activation_with ex C W X asymmetric"
  let ?S = "\<lambda>s. sum_list (map (\<lambda>b. ?A s b) [0..<rows C])"
  let ?N = "\<lparr>rows = rows X,
             coldata = map (\<lambda>b. map (\<lambda>s. ?A s b / ?S s) [0..<rows X]) [0..<rows C]\<rparr>"
  have K: "K = \<lparr>rows = rows X,
               coldata = map (\<lambda>b. map (\<lambda>s. ?A s b) [0..<rows X]) [0..<rows C]\<rparr>"
    using h by (intro kernelActivations_with_Some) simp
  have sums: "rowwise_sum K = map ?S [0..<rows X]"
    unfolding K by (rule rowwise_sum_of_table)
  have nz: "?S s \<noteq> 0" if "s < rows X" for s
    using h that unfolding sums by (auto simp add: list_ex_iff)
  have ne: "rows C \<noteq> 1" using h by simp
  have rK: "rows K = rows X"
    and cK: "coldata K = map (\<lambda>b. map (\<lambda>s. ?A s b) [0..<rows X]) [0..<rows C]"
    unfolding K by simp_all
  have N: "normalizedKernelActivations_with ex C W X asymmetric = Some ?N"
    using h ne
    by (simp add: normalizedKernelActivations_with_def Let_def sums rK cK map2_divide_same)
  have shape: "rows ?N = rows X" "cols ?N = rows C" by (simp_all add: cols_def)
  have "sum_list (row ?N s) = 1" if "s < rows X" for s
    using normalized_table_rows [where A = ?A and B = "rows C" and n = "rows X" and s = s]
      that nz [OF that] by simp
  with N shape show "\<exists>N. normalizedKernelActivations_with ex C W X asymmetric = Some N \<and>
            rows N = rows X \<and> cols N = rows C \<and> (\<forall>s<rows X. sum_list (row N s) = 1)"
    by blast
qed

lemma underflowing_exp_far: "x < - 746 \<Longrightarrow> underflowing_exp x = 0"
  by (simp add: underflowing_exp_def)

lemma underflowing_exp_near: "- 746 \<le> x \<Longrightarrow> underflowing_exp x = exp x"
  by (simp add: underflowing_exp_def)

lemma far_batch_activations:
  "kernelActivations_with underflowing_exp (centers example_model) (widths example_model)
     far_batch False =
   Some \<lparr>rows = 2, coldata = [[exp (- (25 / 8)), 0], [exp (- (25 / 8)), 0]]\<rparr>"
proof -
  have h: "rows (widths example_model) = rows (centers example_model)"
    "cols (widths example_model) = cols (centers example_model)"
    "cols far_batch = cols (centers example_model)"
    by (simp_all add: example_model_def far_batch_def cols_def)
  have r: "rows far_batch = 2" "rows (centers example_model) = 2"
    by (simp_all add: example_model_def far_batch_def)
  show ?thesis
    unfolding kernelActivations_with_eq [OF h] r upt_0_2
    by (simp add: raw_activation_with_def kernel_factor_with_def example_model_def far_batch_def
        cols_def coeff_def Let_def underflowing_exp_def)
qed

text \<open>
  Claim C4 says that with more than one basis function every row sums to one for every
  input batch. On the example model, the batch of the inputs 5 and 1000 has a sample whose
  two activations both underflow to 0. Its row sum is zero, so the code adds
  \<^verbatim>\<open>maxCoeff()/100000\<close> to all row sums: the row of the far sample sums to 0 and the
  row of the near sample to 100000/100001. The source calls the compensation not
  foolproof, and the spec records it as a known imprecision.
\<close>

theorem rows_sum_to_one_counterexample:
  "map_option rowwise_sum
     (normalizedKernelActivations_with underflowing_exp (centers example_model)
        (widths example_model) far_batch False) =
   Some [100000 / 100001, 0]"
proof -
  define E :: real where "E = exp (- (25 / 8))"
  have E: "0 < E" by (simp add: E_def)
  have ne: "rows (centers example_model) \<noteq> 1" by (simp add: example_model_def)
  have K: "kernelActivations_with underflowing_exp (centers example_model)
      (widths example_model) far_batch False = Some \<lparr>rows = 2, coldata = [[E, 0], [E, 0]]\<rparr>"
    unfolding E_def by (rule far_batch_activations)
  have s: "rowwise_sum \<lparr>rows = 2, coldata = [[E, 0], [E, 0]]\<rparr> = [2 * E, 0]"
    by (simp add: rowwise_sum_def row_def upt_0_2)
  have m: "maxCoeff [2 * E, 0] = 2 * E"
    using E by (simp add: maxCoeff_def)
  have N: "normalizedKernelActivations_with underflowing_exp (centers example_model)
      (widths example_model) far_batch False =
      Some \<lparr>rows = 2,
            coldata = [[E / (2 * E + 2 * E / 100000), 0], [E / (2 * E + 2 * E / 100000), 0]]\<rparr>"
    using ne by (simp add: normalizedKernelActivations_with_def Let_def K s m)
  have q: "E / (2 * E + 2 * E / 100000) + E / (2 * E + 2 * E / 100000) = 100000 / 100001"
    using E by (simp add: field_simps)
  show ?thesis
    unfolding N using q by (simp add: rowwise_sum_def row_def upt_0_2)
qed

lemma near_batch_activations:
  "kernelActivations_with underflowing_exp (centers example_model) (widths example_model)
     near_batch False =
   Some \<lparr>rows = 2, coldata = [[1, exp (- (25 / 8))], [exp (- (25 / 2)), exp (- (25 / 8))]]\<rparr>"
proof -
  have h: "rows (widths example_model) = rows (centers example_model)"
    "cols (widths example_model) = cols (centers example_model)"
    "cols near_batch = cols (centers example_model)"
    by (simp_all add: example_model_def near_batch_def cols_def)
  have r: "rows near_batch = 2" "rows (centers example_model) = 2"
    by (simp_all add: example_model_def near_batch_def)
  show ?thesis
    unfolding kernelActivations_with_eq [OF h] r upt_0_2
    by (simp add: raw_activation_with_def kernel_factor_with_def example_model_def near_batch_def
        cols_def coeff_def Let_def underflowing_exp_def)
qed

theorem rows_sum_to_one_unless_zero_sum_witness:
  "normalizedKernelActivations_with underflowing_exp \<lparr>rows = 1, coldata = [[3]]\<rparr>
      \<lparr>rows = 1, coldata = [[2]]\<rparr> far_batch False =
     Some \<lparr>rows = 2, coldata = [[1, 1]]\<rparr> \<and>
   1 < rows (centers example_model) \<and>
   kernelActivations_with underflowing_exp (centers example_model) (widths example_model)
      near_batch False =
     Some \<lparr>rows = 2, coldata = [[1, exp (- (25 / 8))], [exp (- (25 / 2)), exp (- (25 / 8))]]\<rparr> \<and>
   \<not> list_ex (\<lambda>t. t = 0)
      (rowwise_sum
         \<lparr>rows = 2, coldata = [[1, exp (- (25 / 8))], [exp (- (25 / 2)), exp (- (25 / 8))]]\<rparr>) \<and>
   (\<exists>N. normalizedKernelActivations_with underflowing_exp (centers example_model)
           (widths example_model) near_batch False = Some N \<and>
        sum_list (row N 0) = 1 \<and> sum_list (row N 1) = 1)"
proof -
  let ?K = "\<lparr>rows = 2, coldata = [[1, exp (- (25 / 8))], [exp (- (25 / 2)), exp (- (25 / 8))]]\<rparr>"
  have one: "normalizedKernelActivations_with underflowing_exp \<lparr>rows = 1, coldata = [[3]]\<rparr>
      \<lparr>rows = 1, coldata = [[2]]\<rparr> far_batch False = Some \<lparr>rows = 2, coldata = [[1, 1]]\<rparr>"
    using rows_sum_to_one_unless_zero_sum [of "\<lparr>rows = 1, coldata = [[3]]\<rparr>" underflowing_exp
        "\<lparr>rows = 1, coldata = [[2]]\<rparr>" far_batch False]
    by (simp add: far_batch_def numeral_2_eq_2)
  have b: "1 < rows (centers example_model)" by (simp add: example_model_def)
  have p: "0 < 1 + exp (- (25 / 2) :: real)" "0 < 2 * exp (- (25 / 8) :: real)"
    by (simp_all add: add_pos_pos)
  have nz: "\<not> list_ex (\<lambda>t. t = 0) (rowwise_sum ?K)"
    using p by (simp add: rowwise_sum_def row_def upt_0_2)
  from rows_sum_to_one_unless_zero_sum [of "centers example_model" underflowing_exp
      "widths example_model" near_batch False ?K] b near_batch_activations nz
  obtain N where N: "normalizedKernelActivations_with underflowing_exp (centers example_model)
      (widths example_model) near_batch False = Some N"
    and s: "\<forall>s<rows near_batch. sum_list (row N s) = 1"
    by blast
  from s have "sum_list (row N 0) = 1" "sum_list (row N 1) = 1"
    by (simp_all add: near_batch_def)
  with one b near_batch_activations nz N show ?thesis by blast
qed

subsection \<open>The flat parameter vector: reading and writing\<close>

lemma length_concat_cols:
  assumes "list_all (\<lambda>c. length c = n) cs" "\<And>c. length (f c) = length c"
  shows "length (concat (map f cs)) = length cs * n"
  using assms(1) by (induction cs) (simp_all add: assms(2))

lemma list_all_take: "list_all P xs \<Longrightarrow> list_all P (take k xs)"
  by (auto simp: list_all_iff dest: in_set_takeD)

lemma write_cols_prefix:
  assumes wf: "wf_matrix M" and k: "k \<le> cols M"
    and len: "off + k * rows M \<le> length v"
    and f: "\<And>c. length (f c) = length c"
  shows "fold (\<lambda>i_dim (offset, values).
                 (offset + rows M, segment_write values offset (f (col M i_dim))))
              [0..<k] (off, v) =
         (off + k * rows M,
          take off v @ concat (map f (take k (coldata M))) @ drop (off + k * rows M) v)"
  using k len
proof (induction k)
  case 0
  then show ?case by simp
next
  case (Suc k)
  let ?n = "rows M"
  let ?Q = "concat (map f (take k (coldata M)))"
  have kc: "k < length (coldata M)" using Suc.prems(1) by (simp add: cols_def)
  have lenQ: "length ?Q = k * ?n"
    using length_concat_cols [OF list_all_take [OF wf [unfolded wf_matrix_def]], of f k] f kc
    by simp
  have off: "off \<le> length v" "off + k * ?n \<le> length v"
    using Suc.prems(2) by simp_all
  have lc: "length (f (col M k)) = ?n"
    using wf kc by (simp add: f col_def wf_matrix_def list_all_length)
  have IH: "fold (\<lambda>i_dim (offset, values).
                 (offset + rows M, segment_write values offset (f (col M i_dim))))
              [0..<k] (off, v) =
         (off + k * ?n, take off v @ ?Q @ drop (off + k * ?n) v)"
    using Suc.IH Suc.prems by simp
  have tk: "take (Suc k) (coldata M) = take k (coldata M) @ [col M k]"
    using kc by (simp add: take_Suc_conv_app_nth col_def)
  have sw: "segment_write (take off v @ ?Q @ drop (off + k * ?n) v) (off + k * ?n) (f (col M k)) =
        take off v @ (?Q @ f (col M k)) @ drop (off + Suc k * ?n) v"
    using off lenQ lc by (simp add: segment_write_def add.commute add.left_commute)
  show ?case
    by (simp add: IH sw tk add.commute add.left_commute)
qed

lemma write_cols_eq:
  assumes wf: "wf_matrix M"
    and len: "off + cols M * rows M \<le> length v"
    and f: "\<And>c. length (f c) = length c"
  shows "write_cols f M (off, v) =
         (off + cols M * rows M,
          take off v @ concat (map f (coldata M)) @ drop (off + cols M * rows M) v)"
  unfolding write_cols_def
  using write_cols_prefix [OF wf order_refl len f] by (simp add: cols_def)

lemma write_cols_append:
  assumes wf: "wf_matrix M"
    and len: "cols M * rows M \<le> length R"
    and f: "\<And>c. length (f c) = length c"
    and off: "length A = off"
  shows "write_cols f M (off, A @ R) =
         (off + cols M * rows M, (A @ concat (map f (coldata M))) @ drop (cols M * rows M) R)"
proof -
  have "off + cols M * rows M \<le> length (A @ R)" using len off by auto
  from write_cols_eq [OF wf this f] show ?thesis using off by auto
qed

lemma segment_write_append:
  "length A = off \<Longrightarrow> segment_write (A @ R) off seg = (A @ seg) @ drop (length seg) R"
  by (auto simp add: segment_write_def)

lemma length_concat_wf: "wf_matrix M \<Longrightarrow> length (concat (coldata M)) = cols M * rows M"
  using length_concat_cols [of "rows M" "coldata M" "\<lambda>c. c"]
  by (simp add: wf_matrix_def cols_def)

lemma getParameterVectorAll_eq:
  assumes "model_inv m"
  shows "getParameterVectorAll m =
         Some (concat (coldata (centers m)) @ concat (coldata (widths m)) @
               concat (coldata (offsets m)) @ concat (coldata (slopes m)))"
proof -
  let ?n = "rows (centers m)" and ?d = "cols (centers m)"
  let ?C = "concat (coldata (centers m))" and ?W = "concat (coldata (widths m))"
  let ?O = "concat (coldata (offsets m))" and ?S = "concat (coldata (slopes m))"
  let ?f = "\<lambda>cur_slopes. if slopes_as_angles m then map (\<lambda>s. arctan s) cur_slopes else cur_slopes"
  have wf: "wf_matrix (centers m)" "wf_matrix (widths m)" "wf_matrix (slopes m)"
    "wf_matrix (offsets m)"
    and sh: "rows (widths m) = ?n" "cols (widths m) = ?d" "rows (slopes m) = ?n"
    "cols (slopes m) = ?d" "rows (offsets m) = ?n" "cols (offsets m) = 1"
    and sz: "all_values_vector_size m = ?n * ?d + ?n * ?d + ?n + ?n * ?d"
    and ang: "\<not> slopes_as_angles m"
    using assms by (simp_all add: model_inv_def)
  let ?R0 = "replicate (?n * ?d + ?n * ?d + ?n + ?n * ?d) (0::real)"
  let ?R1 = "drop (?d * ?n) ?R0"
  let ?R2 = "drop (?d * ?n) ?R1"
  let ?R3 = "drop ?n ?R2"
  have lC: "length ?C = ?d * ?n" and lW: "length ?W = ?d * ?n"
    and lO: "length ?O = ?n" and lS: "length ?S = ?d * ?n"
    using length_concat_wf [OF wf(1)] length_concat_wf [OF wf(2)]
      length_concat_wf [OF wf(3)] length_concat_wf [OF wf(4)] sh by simp_all
  have s1: "write_cols (\<lambda>c. c) (centers m) (0, ?R0) = (?d * ?n, ?C @ ?R1)"
  proof -
    have a: "cols (centers m) * rows (centers m) \<le> length ?R0" by (simp add: mult.commute)
    have b: "length ([] :: real list) = 0" by simp
    from write_cols_append [OF wf(1) a _ b, of "\<lambda>c. c"] show ?thesis by simp
  qed
  have s2: "write_cols (\<lambda>c. c) (widths m) (?d * ?n, ?C @ ?R1) =
      (?d * ?n + ?d * ?n, (?C @ ?W) @ ?R2)"
  proof -
    have a: "cols (widths m) * rows (widths m) \<le> length ?R1" by (simp add: sh mult.commute)
    from write_cols_append [OF wf(2) a _ lC, of "\<lambda>c. c"] show ?thesis by (simp add: sh)
  qed
  have s3: "segment_write ((?C @ ?W) @ ?R2) (?d * ?n + ?d * ?n) ?O = ((?C @ ?W) @ ?O) @ ?R3"
  proof -
    have b: "length (?C @ ?W) = ?d * ?n + ?d * ?n" by (simp add: lC lW)
    from segment_write_append [OF b, of ?R2 ?O] show ?thesis by (simp add: lO)
  qed
  have s4: "write_cols ?f (slopes m) (?d * ?n + ?d * ?n + ?n, ((?C @ ?W) @ ?O) @ ?R3) =
      (?d * ?n + ?d * ?n + ?n + ?d * ?n, ((?C @ ?W) @ ?O) @ ?S)"
  proof -
    have a: "cols (slopes m) * rows (slopes m) \<le> length ?R3" by (simp add: sh mult.commute)
    have b: "length ((?C @ ?W) @ ?O) = ?d * ?n + ?d * ?n + ?n" by (simp add: lC lW lO)
    have e: "drop (?d * ?n) ?R3 = []" by (simp add: mult.commute)
    have g: "map ?f (coldata (slopes m)) = coldata (slopes m)" using ang by simp
    have "write_cols ?f (slopes m) (?d * ?n + ?d * ?n + ?n, ((?C @ ?W) @ ?O) @ ?R3) =
       (?d * ?n + ?d * ?n + ?n + cols (slopes m) * rows (slopes m),
        (((?C @ ?W) @ ?O) @ concat (map ?f (coldata (slopes m)))) @
          drop (cols (slopes m) * rows (slopes m)) ?R3)"
      by (rule write_cols_append [OF wf(3) a _ b]) simp
    then show ?thesis by (simp only: e g sh append_Nil2)
  qed
  have fin: "?d * ?n + ?d * ?n + ?n + ?d * ?n = ?n * ?d + ?n * ?d + ?n + ?n * ?d"
    by (simp add: mult.commute)
  show ?thesis
    unfolding getParameterVectorAll_def getParameterVectorAllSize_def sz Let_def
    by (simp only: s1 s2 s3 s4 sh case_prod_conv fin) simp
qed

lemma update_after_prefix:
  assumes "k < length cd" "length new = k"
  shows "(new @ drop k cd)[k := seg] = (new @ [seg]) @ drop (Suc k) cd"
    and "(new @ drop k cd) ! k = cd ! k"
proof -
  have d: "drop k cd = cd ! k # drop (Suc k) cd"
    using assms(1) by (simp add: Cons_nth_drop_Suc)
  show "(new @ drop k cd)[k := seg] = (new @ [seg]) @ drop (Suc k) cd"
    using assms(2) by (simp add: d list_update_append)
  show "(new @ drop k cd) ! k = cd ! k"
    using assms(2) by (simp add: d nth_append)
qed

lemma set_centers_loop_prefix:
  assumes "k \<le> cols (centers m)"
  shows "set_centers_loop v n k (off, m) =
         (off + k * n,
          (if \<exists>i<k. col (centers m) i \<noteq> segment v (off + i * n) n
           then clearCache m else m)
          \<lparr>centers := (centers m)
             \<lparr>coldata := map (\<lambda>i. segment v (off + i * n) n) [0..<k] @
                          drop k (coldata (centers m))\<rparr>\<rparr>)"
  using assms
proof (induction k)
  case 0
  show ?case by (simp add: set_centers_loop_def)
next
  case (Suc k)
  let ?new = "map (\<lambda>i. segment v (off + i * n) n) [0..<k]"
  let ?cd = "coldata (centers m)"
  have kc: "k < length ?cd" using Suc.prems by (simp add: cols_def)
  have IH: "set_centers_loop v n k (off, m) =
         (off + k * n,
          (if \<exists>i<k. col (centers m) i \<noteq> segment v (off + i * n) n
           then clearCache m else m)
          \<lparr>centers := (centers m)\<lparr>coldata := ?new @ drop k ?cd\<rparr>\<rparr>)"
    using Suc.IH Suc.prems by simp
  have u: "(?new @ drop k ?cd)[k := seg] = (?new @ [seg]) @ drop (Suc k) ?cd"
    "(?new @ drop k ?cd) ! k = ?cd ! k" for seg
    using update_after_prefix [OF kc, of ?new] by simp_all
  have step: "set_centers_loop v n (Suc k) (off, m) =
      (case set_centers_loop v n k (off, m) of (offset, m) \<Rightarrow>
         (let seg = segment v offset n;
              m = (if col (centers m) k \<noteq> seg then clearCache m else m);
              m = m\<lparr>centers := set_col (centers m) k seg\<rparr>
          in (offset + n, m)))"
    by (simp add: set_centers_loop_def)
  show ?case
    unfolding step IH
    by (auto simp add: Let_def clearCache_def set_col_def col_def u less_Suc_eq add.commute)
qed

lemma set_widths_loop_prefix:
  assumes "k \<le> cols (widths m)"
  shows "set_widths_loop v n k (off, m) =
         (off + k * n,
          (if \<exists>i<k. col (widths m) i \<noteq> segment v (off + i * n) n
           then clearCache m else m)
          \<lparr>widths := (widths m)
             \<lparr>coldata := map (\<lambda>i. segment v (off + i * n) n) [0..<k] @
                          drop k (coldata (widths m))\<rparr>\<rparr>)"
  using assms
proof (induction k)
  case 0
  show ?case by (simp add: set_widths_loop_def)
next
  case (Suc k)
  let ?new = "map (\<lambda>i. segment v (off + i * n) n) [0..<k]"
  let ?cd = "coldata (widths m)"
  have kc: "k < length ?cd" using Suc.prems by (simp add: cols_def)
  have IH: "set_widths_loop v n k (off, m) =
         (off + k * n,
          (if \<exists>i<k. col (widths m) i \<noteq> segment v (off + i * n) n
           then clearCache m else m)
          \<lparr>widths := (widths m)\<lparr>coldata := ?new @ drop k ?cd\<rparr>\<rparr>)"
    using Suc.IH Suc.prems by simp
  have u: "(?new @ drop k ?cd)[k := seg] = (?new @ [seg]) @ drop (Suc k) ?cd"
    "(?new @ drop k ?cd) ! k = ?cd ! k" for seg
    using update_after_prefix [OF kc, of ?new] by simp_all
  have step: "set_widths_loop v n (Suc k) (off, m) =
      (case set_widths_loop v n k (off, m) of (offset, m) \<Rightarrow>
         (let seg = segment v offset n;
              m = (if col (widths m) k \<noteq> seg then clearCache m else m);
              m = m\<lparr>widths := set_col (widths m) k seg\<rparr>
          in (offset + n, m)))"
    by (simp add: set_widths_loop_def)
  show ?case
    unfolding step IH
    by (auto simp add: Let_def clearCache_def set_col_def col_def u less_Suc_eq add.commute)
qed

lemma set_slopes_loop_prefix:
  assumes "k \<le> cols (slopes m)"
  shows "set_slopes_loop v n k (off, m) =
         (off + k * n,
          m\<lparr>slopes := (slopes m)
             \<lparr>coldata := map (\<lambda>i. segment v (off + i * n) n) [0..<k] @
                          drop k (coldata (slopes m))\<rparr>\<rparr>)"
  using assms
proof (induction k)
  case 0
  show ?case by (simp add: set_slopes_loop_def)
next
  case (Suc k)
  let ?new = "map (\<lambda>i. segment v (off + i * n) n) [0..<k]"
  let ?cd = "coldata (slopes m)"
  have kc: "k < length ?cd" using Suc.prems by (simp add: cols_def)
  have IH: "set_slopes_loop v n k (off, m) =
         (off + k * n, m\<lparr>slopes := (slopes m)\<lparr>coldata := ?new @ drop k ?cd\<rparr>\<rparr>)"
    using Suc.IH Suc.prems by simp
  have u: "(?new @ drop k ?cd)[k := seg] = (?new @ [seg]) @ drop (Suc k) ?cd" for seg
    using update_after_prefix [OF kc, of ?new] by simp
  have step: "set_slopes_loop v n (Suc k) (off, m) =
      (case set_slopes_loop v n k (off, m) of (offset, m) \<Rightarrow>
         (let seg = segment v offset n;
              m = m\<lparr>slopes := set_col (slopes m) k seg\<rparr>
          in (offset + n, m)))"
    by (simp add: set_slopes_loop_def)
  show ?case
    unfolding step IH
    by (simp add: Let_def set_col_def u add.commute)
qed

lemma set_centers_loop_all:
  "set_centers_loop v n (cols (centers m)) (off, m) =
     (off + cols (centers m) * n,
      (if \<exists>i<cols (centers m). col (centers m) i \<noteq> segment v (off + i * n) n
       then clearCache m else m)
      \<lparr>centers := (centers m)\<lparr>coldata := blocks v off n (cols (centers m))\<rparr>\<rparr>)"
  using set_centers_loop_prefix [OF order_refl, where m = m and v = v and n = n and off = off]
  by (simp add: cols_def blocks_def)

lemma set_widths_loop_all:
  "set_widths_loop v n (cols (widths m)) (off, m) =
     (off + cols (widths m) * n,
      (if \<exists>i<cols (widths m). col (widths m) i \<noteq> segment v (off + i * n) n
       then clearCache m else m)
      \<lparr>widths := (widths m)\<lparr>coldata := blocks v off n (cols (widths m))\<rparr>\<rparr>)"
  using set_widths_loop_prefix [OF order_refl, where m = m and v = v and n = n and off = off]
  by (simp add: cols_def blocks_def)

lemma set_slopes_loop_all:
  "set_slopes_loop v n (cols (slopes m)) (off, m) =
     (off + cols (slopes m) * n,
      m\<lparr>slopes := (slopes m)\<lparr>coldata := blocks v off n (cols (slopes m))\<rparr>\<rparr>)"
  using set_slopes_loop_prefix [OF order_refl, where m = m and v = v and n = n and off = off]
  by (simp add: cols_def blocks_def)

lemma merge_clears:
  "(if Pw then clearCache ((if Pc then clearCache m else m)\<lparr>centers := Cn\<rparr>)
    else (if Pc then clearCache m else m)\<lparr>centers := Cn\<rparr>)
     \<lparr>widths := Wn\<rparr>\<lparr>offsets := Bn\<rparr>\<lparr>slopes := Sn\<rparr> =
   (if Pc \<or> Pw then clearCache m else m)
     \<lparr>centers := Cn, widths := Wn, offsets := Bn, slopes := Sn\<rparr>"
  by (simp add: clearCache_def)

lemma setParameterVectorAll_eq:
  assumes "model_inv m" "length v = getParameterVectorAllSize m"
  shows "setParameterVectorAll m v =
         Some ([],
           (if cache_cleared_by m v then clearCache m else m)
           \<lparr>centers := (centers m)
              \<lparr>coldata := blocks v 0 (rows (centers m)) (cols (centers m))\<rparr>,
            widths := (widths m)
              \<lparr>coldata := blocks v (cols (centers m) * rows (centers m))
                             (rows (centers m)) (cols (centers m))\<rparr>,
            offsets := of_vector (segment v (2 * (cols (centers m) * rows (centers m)))
                                   (rows (centers m))),
            slopes := (slopes m)
              \<lparr>coldata := blocks v
                             (2 * (cols (centers m) * rows (centers m)) + rows (centers m))
                             (rows (centers m)) (cols (centers m))\<rparr>\<rparr>)"
proof -
  let ?n = "rows (centers m)" and ?d = "cols (centers m)"
  have sh: "cols (widths m) = ?d" "cols (slopes m) = ?d"
    and sz: "all_values_vector_size m = ?n * ?d + ?n * ?d + ?n + ?n * ?d"
    using assms(1) by (simp_all add: model_inv_def)
  have len: "all_values_vector_size m = length v"
    using assms(2) by (simp add: getParameterVectorAllSize_def)
  let ?Pc = "\<exists>i<?d. col (centers m) i \<noteq> segment v (i * ?n) ?n"
  let ?Pw = "\<exists>i<?d. col (widths m) i \<noteq> segment v (?d * ?n + i * ?n) ?n"
  let ?m1 = "(if ?Pc then clearCache m else m)
      \<lparr>centers := (centers m)\<lparr>coldata := blocks v 0 ?n ?d\<rparr>\<rparr>"
  let ?m2 = "(if ?Pw then clearCache ?m1 else ?m1)
      \<lparr>widths := (widths m)\<lparr>coldata := blocks v (?d * ?n) ?n ?d\<rparr>\<rparr>"
  let ?m3 = "?m2\<lparr>offsets := of_vector (segment v (?d * ?n + ?d * ?n) ?n)\<rparr>"
  let ?m4 = "?m3\<lparr>slopes := (slopes m)
      \<lparr>coldata := blocks v (?d * ?n + ?d * ?n + ?n) ?n ?d\<rparr>\<rparr>"
  have c1: "set_centers_loop v ?n ?d (0, m) = (?d * ?n, ?m1)"
    using set_centers_loop_all [where m = m and v = v and n = ?n and off = 0] by simp
  have w1: "widths ?m1 = widths m" by (simp add: clearCache_def)
  have c2: "set_widths_loop v ?n ?d (?d * ?n, ?m1) = (?d * ?n + ?d * ?n, ?m2)"
    using set_widths_loop_all [where m = ?m1 and v = v and n = ?n and off = "?d * ?n"]
    by (simp only: w1 sh)
  have s3: "slopes ?m3 = slopes m" by (simp add: clearCache_def)
  have c3: "set_slopes_loop v ?n ?d (?d * ?n + ?d * ?n + ?n, ?m3) =
      (?d * ?n + ?d * ?n + ?n + ?d * ?n, ?m4)"
    using set_slopes_loop_all [where m = ?m3 and v = v and n = ?n
        and off = "?d * ?n + ?d * ?n + ?n"]
    by (simp only: s3 sh)
  have fin: "?d * ?n + ?d * ?n + ?n + ?d * ?n = getParameterVectorAllSize ?m4"
    by (simp add: getParameterVectorAllSize_def clearCache_def sz mult.commute)
  have run: "setParameterVectorAll m v = Some ([], ?m4)"
    unfolding setParameterVectorAll_def
    by (simp only: len Let_def c1 c2 c3 case_prod_conv fin [symmetric]) simp
  have cc: "cache_cleared_by m v = (?Pc \<or> ?Pw)"
    by (auto simp add: cache_cleared_by_def Let_def list_ex_iff)
  have "?m4 = (if cache_cleared_by m v then clearCache m else m)
           \<lparr>centers := (centers m)\<lparr>coldata := blocks v 0 ?n ?d\<rparr>,
            widths := (widths m)\<lparr>coldata := blocks v (?d * ?n) ?n ?d\<rparr>,
            offsets := of_vector (segment v (2 * (?d * ?n)) ?n),
            slopes := (slopes m)\<lparr>coldata := blocks v (2 * (?d * ?n) + ?n) ?n ?d\<rparr>\<rparr>"
    unfolding cc by (simp only: merge_clears mult_2)
  with run show ?thesis by simp
qed

lemma take_drop_concat:
  assumes "list_all (\<lambda>c. length c = n) cs" "i < length cs"
  shows "take n (drop (i * n) (concat cs @ R)) = cs ! i"
  using assms
proof (induction cs arbitrary: i)
  case Nil
  then show ?case by simp
next
  case (Cons c cs)
  show ?case
  proof (cases i)
    case 0
    with Cons.prems show ?thesis by simp
  next
    case (Suc j)
    with Cons.prems have "take n (drop (j * n) (concat cs @ R)) = cs ! j"
      using Cons.IH [of j] by simp
    with Cons.prems Suc show ?thesis by simp
  qed
qed

lemma blocks_concat:
  assumes "list_all (\<lambda>c. length c = n) cs" "length A = off"
  shows "blocks (A @ concat cs @ R) off n (length cs) = cs"
proof (rule nth_equalityI)
  show "length (blocks (A @ concat cs @ R) off n (length cs)) = length cs"
    by (simp add: blocks_def)
next
  fix i assume "i < length (blocks (A @ concat cs @ R) off n (length cs))"
  then have i: "i < length cs" by (simp add: blocks_def)
  have "segment (A @ concat cs @ R) (off + i * n) n = take n (drop (i * n) (concat cs @ R))"
    using assms(2) by (auto simp add: segment_def)
  then show "blocks (A @ concat cs @ R) off n (length cs) ! i = cs ! i"
    using i take_drop_concat [OF assms(1) i] by (simp add: blocks_def)
qed

lemma blocks_nth: "i < d \<Longrightarrow> blocks v off n d ! i = segment v (off + i * n) n"
  by (simp add: blocks_def)

lemma segment_middle:
  assumes "length A = off" "length B = n"
  shows "segment (A @ B @ R) off n = B"
  using assms by (auto simp add: segment_def)

lemma round_trip_state:
  assumes "model_inv m"
  shows "\<exists>v. getParameterVectorAll m = Some v \<and> length v = getParameterVectorAllSize m \<and>
             setParameterVectorAll m v = Some ([], m)"
proof -
  let ?n = "rows (centers m)" and ?d = "cols (centers m)"
  let ?C = "concat (coldata (centers m))" and ?W = "concat (coldata (widths m))"
  let ?B = "concat (coldata (offsets m))" and ?S = "concat (coldata (slopes m))"
  let ?v = "?C @ ?W @ ?B @ ?S"
  have wf: "wf_matrix (centers m)" "wf_matrix (widths m)" "wf_matrix (slopes m)"
    "wf_matrix (offsets m)"
    and sh: "rows (widths m) = ?n" "cols (widths m) = ?d" "rows (slopes m) = ?n"
    "cols (slopes m) = ?d" "rows (offsets m) = ?n" "cols (offsets m) = 1"
    and sz: "all_values_vector_size m = ?n * ?d + ?n * ?d + ?n + ?n * ?d"
    using assms by (simp_all add: model_inv_def)
  have la: "list_all (\<lambda>c. length c = ?n) (coldata (centers m))"
    "list_all (\<lambda>c. length c = ?n) (coldata (widths m))"
    "list_all (\<lambda>c. length c = ?n) (coldata (slopes m))"
    using wf sh by (simp_all add: wf_matrix_def)
  have lC: "length ?C = ?d * ?n" and lW: "length ?W = ?d * ?n"
    and lB: "length ?B = ?n" and lS: "length ?S = ?d * ?n"
    using length_concat_wf [OF wf(1)] length_concat_wf [OF wf(2)]
      length_concat_wf [OF wf(3)] length_concat_wf [OF wf(4)] sh by simp_all
  have get: "getParameterVectorAll m = Some ?v"
    by (rule getParameterVectorAll_eq [OF assms])
  have len: "length ?v = getParameterVectorAllSize m"
    by (simp add: getParameterVectorAllSize_def sz lC lW lB lS mult.commute)
  have bC: "blocks ?v 0 ?n ?d = coldata (centers m)"
    using blocks_concat [OF la(1), of "[]" 0 "?W @ ?B @ ?S"] by (simp add: cols_def)
  have bW: "blocks ?v (?d * ?n) ?n ?d = coldata (widths m)"
    using blocks_concat [OF la(2) lC, of "?B @ ?S"] sh(2) by (simp add: cols_def)
  have bS: "blocks ?v (2 * (?d * ?n) + ?n) ?n ?d = coldata (slopes m)"
  proof -
    have "length (?C @ ?W @ ?B) = 2 * (?d * ?n) + ?n" by (simp add: lC lW lB)
    from blocks_concat [OF la(3) this, of "[]"] sh(4) show ?thesis by (simp add: cols_def)
  qed
  have sB: "segment ?v (2 * (?d * ?n)) ?n = ?B"
  proof -
    have "length (?C @ ?W) = 2 * (?d * ?n)" by (simp add: lC lW)
    from segment_middle [OF this lB, of ?S] show ?thesis by simp
  qed
  have oB: "of_vector ?B = offsets m"
  proof -
    from one_column [OF wf(4) sh(6)] obtain c where "coldata (offsets m) = [c]"
      "length c = rows (offsets m)" by blast
    then show ?thesis by (simp add: of_vector_def)
  qed
  have eC: "col (centers m) i = segment ?v (i * ?n) ?n" if "i < ?d" for i
    using blocks_nth [OF that, of ?v 0 ?n] by (simp add: bC col_def)
  have eW: "col (widths m) i = segment ?v (?d * ?n + i * ?n) ?n" if "i < ?d" for i
    using blocks_nth [OF that, of ?v "?d * ?n" ?n] by (simp add: bW col_def)
  have nc: "\<not> cache_cleared_by m ?v"
    using eC eW by (auto simp add: cache_cleared_by_def Let_def list_ex_iff)
  have "setParameterVectorAll m ?v = Some ([], m)"
    by (simp add: setParameterVectorAll_eq [OF assms len] nc bC bW bS sB oB)
  with get len show ?thesis by blast
qed

lemma segment_nth:
  assumes "j < n" "off + n \<le> length v"
  shows "segment v off n ! j = v ! (off + j)"
  using assms by (simp add: segment_def)

lemma length_segment: "off + n \<le> length v \<Longrightarrow> length (segment v off n) = n"
  by (simp add: segment_def)

lemma col_eq_segment_iff:
  assumes "length (col M i) = n" "off + n \<le> length v"
  shows "col M i = segment v off n \<longleftrightarrow> (\<forall>j<n. v ! (off + j) = coeff M j i)"
proof -
  have "col M i = segment v off n \<longleftrightarrow> (\<forall>j<n. col M i ! j = segment v off n ! j)"
    using assms by (simp add: list_eq_iff_nth_eq length_segment)
  also have "\<dots> \<longleftrightarrow> (\<forall>j<n. v ! (off + j) = coeff M j i)"
    using assms(2) by (auto simp add: segment_nth coeff_def col_def)
  finally show ?thesis .
qed

lemma block_bound:
  fixes i d n :: nat
  assumes "i < d"
  shows "i * n + n \<le> d * n"
proof -
  have "Suc i * n \<le> d * n" using assms by (intro mult_le_mono1) simp
  then show ?thesis by simp
qed

lemma length_col: "wf_matrix M \<Longrightarrow> i < cols M \<Longrightarrow> length (col M i) = rows M"
  by (simp add: wf_matrix_def col_def cols_def list_all_length)

lemma cache_cleared_by_iff:
  assumes "model_inv m" "length v = getParameterVectorAllSize m"
  shows "cache_cleared_by m v \<longleftrightarrow>
         ((\<exists>i<cols (centers m). \<exists>j<rows (centers m).
              v ! (i * rows (centers m) + j) \<noteq> coeff (centers m) j i) \<or>
          (\<exists>i<cols (centers m). \<exists>j<rows (centers m).
              v ! (cols (centers m) * rows (centers m) + i * rows (centers m) + j) \<noteq>
              coeff (widths m) j i))"
proof -
  let ?n = "rows (centers m)" and ?d = "cols (centers m)"
  have wf: "wf_matrix (centers m)" "wf_matrix (widths m)"
    and sh: "rows (widths m) = ?n" "cols (widths m) = ?d"
    and sz: "all_values_vector_size m = ?n * ?d + ?n * ?d + ?n + ?n * ?d"
    using assms(1) by (simp_all add: model_inv_def)
  have len: "length v = ?d * ?n + ?d * ?n + ?n + ?d * ?n"
    using assms(2) sz by (simp add: getParameterVectorAllSize_def mult.commute)
  have c: "col (centers m) i = segment v (i * ?n) ?n \<longleftrightarrow>
           (\<forall>j<?n. v ! (i * ?n + j) = coeff (centers m) j i)" if "i < ?d" for i
    using col_eq_segment_iff [OF length_col [OF wf(1) that], of "i * ?n" v]
      block_bound [OF that, of ?n] len by simp
  have w: "col (widths m) i = segment v (?d * ?n + i * ?n) ?n \<longleftrightarrow>
           (\<forall>j<?n. v ! (?d * ?n + i * ?n + j) = coeff (widths m) j i)" if "i < ?d" for i
    using col_eq_segment_iff [OF length_col [OF wf(2)], of i "?d * ?n + i * ?n" v]
      block_bound [OF that, of ?n] len that sh by simp
  show ?thesis
    using c w by (auto simp add: cache_cleared_by_def Let_def list_ex_iff)
qed

lemma model_inv_cached_model: "model_inv cached_model"
  using model_inv_example_model by (simp add: model_inv_def cached_model_def)

text \<open>
  Claim C1. For every model (one that keeps the class invariant),
  \<^verbatim>\<open>getParameterVectorAll\<close> followed by \<^verbatim>\<open>setParameterVectorAll\<close> with the vector it
  returned leaves centers, widths, offsets and slopes as they were, indeed the whole
  model, so \<^verbatim>\<open>getLines\<close>, \<^verbatim>\<open>normalizedKernelActivations\<close> and \<^verbatim>\<open>locallyWeightedLines\<close>
  give afterwards, on every input batch, what they would have given before.
\<close>

theorem parameter_vector_round_trip:
  assumes "model_inv m"
  shows "\<exists>v m'. getParameterVectorAll m = Some v \<and>
           length v = getParameterVectorAllSize m \<and>
           setParameterVectorAll m v = Some ([], m') \<and>
           centers m' = centers m \<and> widths m' = widths m \<and>
           offsets m' = offsets m \<and> slopes m' = slopes m \<and>
           m' = m \<and>
           getLines m' X = getLines m X \<and>
           normalizedKernelActivations m' X = normalizedKernelActivations m X \<and>
           locallyWeightedLines m' X = locallyWeightedLines m X"
  using round_trip_state [OF assms] by auto

theorem parameter_vector_round_trip_witness:
  "model_inv cached_model \<and>
   getParameterVectorAll cached_model = Some [0, 10, 2, 2, 0, 0, 1, 1] \<and>
   setParameterVectorAll cached_model [0, 10, 2, 2, 0, 0, 1, 1] = Some ([], cached_model)"
proof -
  have g: "getParameterVectorAll cached_model = Some [0, 10, 2, 2, 0, 0, 1, 1]"
    by (simp add: getParameterVectorAll_eq [OF model_inv_cached_model])
       (simp add: cached_model_def example_model_def)
  from parameter_vector_round_trip [OF model_inv_cached_model] obtain v m' where
    "getParameterVectorAll cached_model = Some v"
    "setParameterVectorAll cached_model v = Some ([], m')" "m' = cached_model"
    by blast
  with g model_inv_cached_model show ?thesis by simp
qed

lemma coeff_blocks:
  assumes "i < d" "j < n" "off + d * n \<le> length v"
  shows "coeff (M\<lparr>coldata := blocks v off n d\<rparr>) j i = v ! (off + i * n + j)"
proof -
  have "off + i * n + n \<le> length v"
    using block_bound [OF assms(1), of n] assms(3) by simp
  then show ?thesis
    using assms(1,2) by (simp add: coeff_def blocks_def segment_nth)
qed

lemma coeff_of_vector_segment:
  assumes "j < n" "off + n \<le> length v"
  shows "coeff (of_vector (segment v off n)) j 0 = v ! (off + j)"
  using assms by (simp add: coeff_def of_vector_def segment_nth)

text \<open>
  Claim C2. For a vector of the right length, \<^verbatim>\<open>setParameterVectorAll\<close> clears the
  activation cache exactly when some entry of the centers block or of the widths block
  of the vector differs from the current entry of centers or widths; otherwise both cache
  members are what they were. The offsets and slopes blocks are written into the model
  and play no part in that.
\<close>

theorem cache_cleared_iff_kernels_change:
  assumes "model_inv m" "length v = getParameterVectorAllSize m"
  shows "\<exists>m'. setParameterVectorAll m v = Some ([], m') \<and>
           (let n = rows (centers m); d = cols (centers m);
                changed =
                  ((\<exists>i<d. \<exists>j<n. v ! (i * n + j) \<noteq> coeff (centers m) j i) \<or>
                   (\<exists>i<d. \<exists>j<n. v ! (d * n + i * n + j) \<noteq> coeff (widths m) j i))
            in inputs_cached m' = (if changed then empty_matrix else inputs_cached m) \<and>
               normalized_kernel_activations_cached m' =
                 (if changed then empty_matrix else normalized_kernel_activations_cached m) \<and>
               (\<forall>j<n. coeff (offsets m') j 0 = v ! (2 * (d * n) + j)) \<and>
               (\<forall>i<d. \<forall>j<n. coeff (slopes m') j i = v ! (2 * (d * n) + n + i * n + j)))"
proof -
  let ?n = "rows (centers m)" and ?d = "cols (centers m)"
  have sz: "all_values_vector_size m = ?n * ?d + ?n * ?d + ?n + ?n * ?d"
    using assms(1) by (simp add: model_inv_def)
  have len: "length v = ?d * ?n + ?d * ?n + ?n + ?d * ?n"
    using assms(2) sz by (simp add: getParameterVectorAllSize_def mult.commute)
  have b1: "2 * (?d * ?n) + ?n \<le> length v" and b2: "2 * (?d * ?n) + ?n + ?d * ?n \<le> length v"
    using len by simp_all
  note eq = setParameterVectorAll_eq [OF assms]
  note cc = cache_cleared_by_iff [OF assms]
  show ?thesis
    unfolding eq Let_def cc [symmetric]
    by (simp add: clearCache_def coeff_blocks [OF _ _ b2] coeff_of_vector_segment [OF _ b1])
qed

theorem cache_cleared_iff_kernels_change_witness:
  "model_inv cached_model \<and>
   (\<exists>m'. setParameterVectorAll cached_model [0, 10, 2, 2, 7, 8, 3, 4] = Some ([], m') \<and>
         inputs_cached m' = \<lparr>rows = 1, coldata = [[5]]\<rparr> \<and>
         coeff (offsets m') 1 0 = 8 \<and> coeff (slopes m') 0 0 = 3) \<and>
   (\<exists>m'. setParameterVectorAll cached_model [0, 10, 2, 3, 0, 0, 1, 1] = Some ([], m') \<and>
         inputs_cached m' = empty_matrix \<and>
         normalized_kernel_activations_cached m' = empty_matrix)"
proof -
  have f: "rows (centers cached_model) = 2" "cols (centers cached_model) = 1"
    "coldata (centers cached_model) = [[0, 10]]" "coldata (widths cached_model) = [[2, 2]]"
    "inputs_cached cached_model = \<lparr>rows = 1, coldata = [[5]]\<rparr>"
    "getParameterVectorAllSize cached_model = 8"
    by (simp_all add: cached_model_def example_model_def cols_def getParameterVectorAllSize_def)
  have two: "(\<exists>j<2::nat. P j) \<longleftrightarrow> P 0 \<or> P 1" for P
    by (auto simp add: less_2_cases_iff)
  have l1: "length [0, 10, 2, 2, 7, 8, 3, 4 :: real] = getParameterVectorAllSize cached_model"
    and l2: "length [0, 10, 2, 3, 0, 0, 1, 1 :: real] = getParameterVectorAllSize cached_model"
    by (simp_all add: f)
  from cache_cleared_iff_kernels_change [OF model_inv_cached_model l1]
  obtain m1 where m1: "setParameterVectorAll cached_model [0, 10, 2, 2, 7, 8, 3, 4] = Some ([], m1)"
    and k1: "inputs_cached m1 = \<lparr>rows = 1, coldata = [[5]]\<rparr>"
    and o1: "\<forall>j<2. coeff (offsets m1) j 0 = [0, 10, 2, 2, 7, 8, 3, 4] ! (2 * (1 * 2) + j)"
    and s1: "\<forall>i<1. \<forall>j<2. coeff (slopes m1) j i =
                [0, 10, 2, 2, 7, 8, 3, 4] ! (2 * (1 * 2) + 2 + i * 2 + j)"
    by (auto simp add: f Let_def two coeff_def)
  from o1 have o1': "coeff (offsets m1) 1 0 = 8" by simp
  from s1 have s1': "coeff (slopes m1) 0 0 = 3" by simp
  from cache_cleared_iff_kernels_change [OF model_inv_cached_model l2]
  obtain m2 where m2: "setParameterVectorAll cached_model [0, 10, 2, 3, 0, 0, 1, 1] = Some ([], m2)"
    and k2: "inputs_cached m2 = empty_matrix"
    "normalized_kernel_activations_cached m2 = empty_matrix"
    by (auto simp add: f Let_def two coeff_def)
  from model_inv_cached_model m1 k1 o1' s1' m2 k2 show ?thesis by blast
qed

subsection \<open>The activation cache\<close>

text \<open>
  Claim C3 says that a first call recomputes and that the value returned is always what
  the static routine computes. The comparison with the stored inputs is the one the claim
  describes, but the empty cache stores the matrix with no rows and no columns, so a
  request with that matrix is answered from the cache, also on the first call: the model
  returns the empty matrix it never computed, where the static routine returns a matrix
  with one column per basis function. The comment in the source says the shape test
  takes care of the empty cache; it does not for this request.
\<close>

theorem first_call_on_empty_input_hits_cache:
  "new_ModelParametersLWR \<lparr>rows = 1, coldata = []\<rparr> \<lparr>rows = 1, coldata = []\<rparr>
      \<lparr>rows = 1, coldata = []\<rparr> \<lparr>rows = 1, coldata = [[0]]\<rparr> False False = Some zero_dim_model \<and>
   normalizedKernelActivations zero_dim_model \<lparr>rows = 0, coldata = []\<rparr> =
     Some (\<lparr>rows = 0, coldata = []\<rparr>, zero_dim_model) \<and>
   normalizedKernelActivations_static (centers zero_dim_model) (widths zero_dim_model)
      \<lparr>rows = 0, coldata = []\<rparr> (asymmetric_kernels zero_dim_model) =
     Some \<lparr>rows = 0, coldata = [[]]\<rparr> \<and>
   new_ModelParametersLWR \<lparr>rows = 1, coldata = [[3]]\<rparr> \<lparr>rows = 1, coldata = [[2]]\<rparr>
      \<lparr>rows = 1, coldata = [[1]]\<rparr> \<lparr>rows = 1, coldata = [[0]]\<rparr> False False = Some single_basis_model \<and>
   normalizedKernelActivations single_basis_model \<lparr>rows = 0, coldata = []\<rparr> =
     Some (\<lparr>rows = 0, coldata = []\<rparr>, single_basis_model) \<and>
   normalizedKernelActivations_static (centers single_basis_model) (widths single_basis_model)
      \<lparr>rows = 0, coldata = []\<rparr> (asymmetric_kernels single_basis_model) =
     Some \<lparr>rows = 0, coldata = [[]]\<rparr>"
  by (simp add: new_ModelParametersLWR_def zero_dim_model_def single_basis_model_def
      normalizedKernelActivations_def normalizedKernelActivations_static_def
      empty_matrix_def cols_def)

text \<open>
  For every other request the cache is sound: it is consistent after construction, every
  operation keeps it consistent, and a consistent cache answers as the static routine.
\<close>

lemma cache_ok_new:
  "new_ModelParametersLWR c w s off asymmetric pivot = Some m \<Longrightarrow> cache_ok m"
  by (auto simp add: new_ModelParametersLWR_def cache_ok_def Let_def split: if_splits)

lemma cache_ok_normalizedKernelActivations:
  assumes "cache_ok m" "normalizedKernelActivations m X = Some (N, m')"
  shows "cache_ok m'"
  using assms
  by (auto simp add: normalizedKernelActivations_def cache_ok_def
      split: if_splits option.splits)

lemma normalizedKernelActivations_is_static:
  assumes "cache_ok m" "\<not> (rows X = 0 \<and> cols X = 0)"
  shows "map_option fst (normalizedKernelActivations m X) =
         normalizedKernelActivations_static (centers m) (widths m) X (asymmetric_kernels m)"
proof (cases "caching m \<and> rows X = rows (inputs_cached m) \<and> cols X = cols (inputs_cached m) \<and>
         coldata X = coldata (inputs_cached m)")
  case True
  then have X: "X = inputs_cached m" by simp
  with assms(2) have "inputs_cached m \<noteq> empty_matrix"
    by (auto simp add: empty_matrix_def cols_def)
  with assms(1) have "normalizedKernelActivations_static (centers m) (widths m) (inputs_cached m)
          (asymmetric_kernels m) = Some (normalized_kernel_activations_cached m)"
    by (simp add: cache_ok_def)
  with True X show ?thesis by (simp add: normalizedKernelActivations_def)
next
  case False
  then show ?thesis
    by (auto simp add: normalizedKernelActivations_def split: option.splits)
qed

lemma cache_ok_set_lines_pivot:
  "cache_ok m \<Longrightarrow> cache_ok (set_lines_pivot_at_max_activation m b)"
  by (simp add: set_lines_pivot_at_max_activation_def cache_ok_def Let_def)

lemma blocks_unchanged:
  assumes "\<forall>i<length cd. cd ! i = segment v (off + i * n) n"
  shows "blocks v off n (length cd) = cd"
  using assms by (intro nth_equalityI) (simp_all add: blocks_def)

lemma cache_ok_setParameterVectorAll:
  assumes "model_inv m" "cache_ok m" "setParameterVectorAll m v = Some (msgs, m')"
  shows "cache_ok m'"
proof (cases "length v = getParameterVectorAllSize m")
  case False
  with assms(2,3) show ?thesis
    by (auto simp add: setParameterVectorAll_def getParameterVectorAllSize_def)
next
  case True
  note eq = setParameterVectorAll_eq [OF assms(1) True]
  let ?n = "rows (centers m)" and ?d = "cols (centers m)"
  show ?thesis
  proof (cases "cache_cleared_by m v")
    case True
    with eq assms(3) show ?thesis by (auto simp add: cache_ok_def clearCache_def)
  next
    case False
    have sh: "cols (widths m) = ?d" using assms(1) by (simp add: model_inv_def)
    from False have c: "\<forall>i<length (coldata (centers m)).
        coldata (centers m) ! i = segment v (0 + i * ?n) ?n"
      and w: "\<forall>i<length (coldata (widths m)).
        coldata (widths m) ! i = segment v (?d * ?n + i * ?n) ?n"
      using sh by (auto simp add: cache_cleared_by_def Let_def list_ex_iff col_def cols_def)
    have bc: "blocks v 0 ?n ?d = coldata (centers m)"
      using blocks_unchanged [OF c] by (simp add: cols_def)
    have bw: "blocks v (?d * ?n) ?n ?d = coldata (widths m)"
      using blocks_unchanged [OF w] sh by (simp add: cols_def)
    from eq assms(3) False have
      "centers m' = centers m" "widths m' = widths m"
      "asymmetric_kernels m' = asymmetric_kernels m"
      "inputs_cached m' = inputs_cached m"
      "normalized_kernel_activations_cached m' = normalized_kernel_activations_cached m"
      by (auto simp add: bc bw)
    with assms(2) show ?thesis by (simp add: cache_ok_def)
  qed
qed

subsection \<open>The operations keep the class invariant\<close>

lemma model_inv_new:
  assumes "new_ModelParametersLWR c w s off asymmetric pivot = Some m"
    and "wf_matrix c" "wf_matrix w" "wf_matrix s" "wf_matrix off"
  shows "model_inv m"
  using assms
  by (auto simp add: new_ModelParametersLWR_def model_inv_def Let_def split: if_splits)

lemma wf_add_vector:
  assumes "wf_matrix M" "cols M = 1" "length v = rows M"
  shows "wf_matrix (mat_add M (of_vector v))" "wf_matrix (mat_sub M (of_vector v))"
proof -
  from one_column [OF assms(1,2)] obtain c where c: "coldata M = [c]" "length c = rows M"
    by blast
  then show "wf_matrix (mat_add M (of_vector v))" "wf_matrix (mat_sub M (of_vector v))"
    using assms(3) by (simp_all add: wf_matrix_def mat_add_def mat_sub_def of_vector_def)
qed

lemma model_inv_set_lines_pivot:
  assumes "model_inv m"
  shows "model_inv (set_lines_pivot_at_max_activation m b)"
proof -
  have wf: "wf_matrix (offsets m)" and c1: "cols (offsets m) = 1"
    and len: "length (slopes_times_centers m) = rows (offsets m)"
    using assms by (simp_all add: model_inv_def length_slopes_times_centers)
  show ?thesis
    using assms wf_add_vector [OF wf c1 len] shape_add_vector [OF c1] shape_sub_vector [OF c1]
    by (simp add: set_lines_pivot_at_max_activation_def Let_def model_inv_def)
qed

lemma model_inv_set_slopes_as_angles:
  "model_inv m \<Longrightarrow> model_inv (snd (set_slopes_as_angles m b))"
  by (simp add: set_slopes_as_angles_def model_inv_def)

lemma model_inv_normalizedKernelActivations:
  "model_inv m \<Longrightarrow> normalizedKernelActivations m X = Some (N, m') \<Longrightarrow> model_inv m'"
  by (auto simp add: normalizedKernelActivations_def model_inv_def
      split: if_splits option.splits)

lemma wf_blocks:
  assumes "off + d * n \<le> length v" "rows M = n"
  shows "wf_matrix (M\<lparr>coldata := blocks v off n d\<rparr>)"
proof -
  have "length (segment v (off + i * n) n) = n" if "i < d" for i
  proof -
    have "off + i * n + n \<le> length v"
      using block_bound [OF that, of n] assms(1) by simp
    then show ?thesis by (rule length_segment)
  qed
  then show ?thesis
    using assms(2) by (simp add: wf_matrix_def blocks_def list_all_iff)
qed

lemma model_inv_setParameterVectorAll:
  assumes "model_inv m" "setParameterVectorAll m v = Some (msgs, m')"
  shows "model_inv m'"
proof (cases "length v = getParameterVectorAllSize m")
  case False
  with assms show ?thesis
    by (auto simp add: setParameterVectorAll_def getParameterVectorAllSize_def)
next
  case True
  let ?n = "rows (centers m)" and ?d = "cols (centers m)"
  have sh: "rows (widths m) = ?n" "rows (slopes m) = ?n"
    and sz: "all_values_vector_size m = ?n * ?d + ?n * ?d + ?n + ?n * ?d"
    and ang: "\<not> slopes_as_angles m"
    using assms(1) by (simp_all add: model_inv_def)
  have len: "length v = ?d * ?n + ?d * ?n + ?n + ?d * ?n"
    using True sz by (simp add: getParameterVectorAllSize_def mult.commute)
  have w1: "wf_matrix ((centers m)\<lparr>coldata := blocks v 0 ?n ?d\<rparr>)"
    using wf_blocks [of 0 ?d ?n v "centers m"] len by simp
  have w2: "wf_matrix ((widths m)\<lparr>coldata := blocks v (?d * ?n) ?n ?d\<rparr>)"
    using wf_blocks [of "?d * ?n" ?d ?n v "widths m"] len sh by simp
  have w3: "wf_matrix ((slopes m)\<lparr>coldata := blocks v (2 * (?d * ?n) + ?n) ?n ?d\<rparr>)"
    using wf_blocks [of "2 * (?d * ?n) + ?n" ?d ?n v "slopes m"] len sh by simp
  have l4: "length (segment v (2 * (?d * ?n)) ?n) = ?n"
    using len by (intro length_segment) simp
  have w4: "wf_matrix (of_vector (segment v (2 * (?d * ?n)) ?n))"
    by (simp add: wf_matrix_def of_vector_def)
  from setParameterVectorAll_eq [OF assms(1) True] assms(2)
  have m': "m' = (if cache_cleared_by m v then clearCache m else m)
           \<lparr>centers := (centers m)\<lparr>coldata := blocks v 0 ?n ?d\<rparr>,
            widths := (widths m)\<lparr>coldata := blocks v (?d * ?n) ?n ?d\<rparr>,
            offsets := of_vector (segment v (2 * (?d * ?n)) ?n),
            slopes := (slopes m)\<lparr>coldata := blocks v (2 * (?d * ?n) + ?n) ?n ?d\<rparr>\<rparr>"
    by simp
  show ?thesis
    unfolding m' model_inv_def
    using w1 w2 w3 w4 l4 sh sz ang
    by (simp add: clearCache_def cols_def blocks_def of_vector_def)
qed

subsection \<open>The scenario of the spec\<close>

text \<open>
  One input dimension, two basis functions with centers 0 and 10 and widths 2, slopes 1,
  offsets 0, symmetric kernels, pivot off, and the input 5: both lines give 5, both
  normalised activations are one half, and the blended output is 5. The call leaves the
  model with that input and those activations in its cache.
\<close>

lemma scenario_lines:
  "getLines example_model \<lparr>rows = 1, coldata = [[5]]\<rparr> = Some \<lparr>rows = 1, coldata = [[5], [5]]\<rparr>"
  by (simp add: getLines_def example_model_def cols_def mat_add_def mul_transposed_def
      transpose_replicate_def dot_def row_def coeff_def Let_def upt_0_2)

lemma scenario_activations:
  "normalizedKernelActivations_static (centers example_model) (widths example_model)
     \<lparr>rows = 1, coldata = [[5]]\<rparr> False = Some \<lparr>rows = 1, coldata = [[1 / 2], [1 / 2]]\<rparr>"
proof -
  have h: "1 < rows (centers example_model)"
    "rows (widths example_model) = rows (centers example_model)"
    "cols (widths example_model) = cols (centers example_model)"
    "cols \<lparr>rows = 1, coldata = [[5]]\<rparr> = cols (centers example_model)"
    by (simp_all add: example_model_def cols_def)
  have r: "raw_activation (centers example_model) (widths example_model)
        \<lparr>rows = 1, coldata = [[5]]\<rparr> False 0 b = exp (- (25 / 8))" if "b < 2" for b
    using that
    by (auto simp add: raw_activation_def kernel_factor_def example_model_def cols_def coeff_def
        Let_def less_2_cases_iff)
  have s: "row_sum_raw (centers example_model) (widths example_model)
        \<lparr>rows = 1, coldata = [[5]]\<rparr> False 0 = 2 * exp (- (25 / 8))"
    using r [of 0] r [of 1]
    by (simp add: row_sum_raw_def example_model_def upt_0_2)
  show ?thesis
    unfolding normalized_static_eq [OF h]
    using r [of 0] r [of 1] s
    by (simp add: example_model_def upt_0_2)
qed

lemma scenario_output:
  "locallyWeightedLines example_model \<lparr>rows = 1, coldata = [[5]]\<rparr> =
     Some (\<lparr>rows = 1, coldata = [[5]]\<rparr>, cached_model)"
proof -
  have n: "normalizedKernelActivations example_model \<lparr>rows = 1, coldata = [[5]]\<rparr> =
      Some (\<lparr>rows = 1, coldata = [[1 / 2], [1 / 2]]\<rparr>, cached_model)"
    using scenario_activations
    by (simp add: normalizedKernelActivations_def cached_model_def)
       (simp add: example_model_def empty_matrix_def)
  show ?thesis
    unfolding locallyWeightedLines_def scenario_lines n
    by (simp add: of_vector_def rowwise_sum_def cwise_mul_def row_def)
qed

end
